theory Spec2Isabelle
  imports Main "HOL-Library.AList"
begin

section \<open>The thundering-herd cache (package tcache, cache.go)\<close>

text \<open>
  The cache of \<^verbatim>\<open>cache.go\<close> is one Go struct: a value store \<^verbatim>\<open>items\<close>, the
  caller's \<^verbatim>\<open>fetch\<close> function, and an in-flight tracker made of two maps,
  \<^verbatim>\<open>isBeingFetchedMap\<close> (key to flag) and \<^verbatim>\<open>isBeingFetchedWG\<close> (key to wait group).
  The file holds two revisions of the package, one after the other. Lines 1 to 191 are
  the main one (\<^verbatim>\<open>Get\<close> returns an error, \<^verbatim>\<open>Update\<close> exists); lines 193 to 350 are an
  earlier one, of which only \<^verbatim>\<open>Clear\<close> (lines 240 to 248) is modelled here, under the
  name \<open>Clear_240\<close>.
\<close>

subsection \<open>Values, errors and map objects\<close>

type_synonym key = string

text \<open>An \<^verbatim>\<open>interface{}\<close> value: the nil interface, or some boxed value.\<close>

datatype 'v iface = NilVal | Val 'v

text \<open>
  A Go \<^verbatim>\<open>error\<close>: the package's own \<^verbatim>\<open>ErrNotInitialized\<close>, or any other error value
  (a fetcher or a prewarm function may return either).
\<close>

datatype error = ErrNotInitialized | ErrOther string

text \<open>
  Go maps are references. A \<^verbatim>\<open>map[string]interface{}\<close> object lives in a heap of map
  objects and is named by its address (its index in the heap); a nil map is the address
  \<open>None\<close>. An object is an association list: reading is \<^const>\<open>map_of\<close>, the assignment
  \<^verbatim>\<open>m[k] = v\<close> is \<^const>\<open>AList.update\<close>, and \<^verbatim>\<open>range\<close> walks the list. The keys of a Go
  map are pairwise distinct; \<open>AList.update\<close> keeps them so.
\<close>

type_synonym addr = nat
type_synonym 'v object = "(key \<times> 'v iface) list"
type_synonym 'v heap = "'v object list"

text \<open>
  The fetcher is a caller-supplied closure \<^verbatim>\<open>func(key string) (interface{}, error)\<close>.
  Being a closure it may keep state of its own, so its result is a function of the
  calls made so far and of the key. The prewarm function allocates and returns a map
  (or nil) and an error.
\<close>

type_synonym 'v fetcher = "key list \<Rightarrow> key \<Rightarrow> 'v iface \<times> error option"
type_synonym 'v prewarm = "'v heap \<Rightarrow> (addr option \<times> error option) \<times> 'v heap"

text \<open>
  The state: the five fields of the struct \<^verbatim>\<open>Cache\<close> (the two mutexes carry no data),
  the heap of map objects, and the list of keys the fetcher has been called with, in
  call order. The two tracker maps are reached through the cache only, so they are held
  by value, \<open>None\<close> being the nil map; a wait group is held as its counter, under the
  key it belongs to.
\<close>

record 'v state =
  items :: "addr option"
  fetch :: "'v fetcher option"
  isBeingFetchedMap :: "(key \<times> bool) list option"
  isBeingFetchedWG :: "(key \<times> nat) list option"
  preWarmInit :: "'v prewarm option"
  heap :: "'v heap"
  calls :: "key list"

text \<open>
  How a call ends: it returns, it panics (an assignment into a nil map, a call of a nil
  function, a method call on a nil wait group, a negative wait-group counter), or it
  blocks in \<^verbatim>\<open>Wait\<close> on a counter that nobody else is there to bring down. The
  state holds no mutex: a call that returns has released every mutex it took, but a
  panic inside a critical section (line 73, line 155) leaves its mutex locked, the
  \<^verbatim>\<open>Unlock\<close> not being deferred. What a later call does after a panic is therefore not
  described here, and no statement below follows a call that panicked.
\<close>

datatype 'a outcome = Returns 'a | Panics | Blocks

subsection \<open>The steps of the code\<close>

text \<open>The object at an address; an address beyond the heap names no object of the program.\<close>

definition obj :: "'v heap \<Rightarrow> addr \<Rightarrow> 'v object" where
  "obj h a = (if a < length h then h ! a else [])"

text \<open>\<^verbatim>\<open>make(map[string]interface{})\<close>: a new empty object at the next address.\<close>

definition make_map :: "'v state \<Rightarrow> addr \<times> 'v state" where
  "make_map m = (length (heap m), m\<lparr>heap := heap m @ [[]]\<rparr>)"

text \<open>\<^verbatim>\<open>value, ok = m.items[key]\<close>; reading a nil map finds nothing.\<close>

definition items_lookup :: "'v state \<Rightarrow> key \<Rightarrow> 'v iface option" where
  "items_lookup m key =
     (case items m of None \<Rightarrow> None | Some a \<Rightarrow> map_of (obj (heap m) a) key)"

text \<open>An assignment \<^verbatim>\<open>x[k] = v\<close> into the map object at address \<open>a\<close>.\<close>

definition map_assign :: "addr \<Rightarrow> key \<Rightarrow> 'v iface \<Rightarrow> 'v state \<Rightarrow> 'v state" where
  "map_assign a k v m = m\<lparr>heap := (heap m)[a := AList.update k v (obj (heap m) a)]\<rparr>"

text \<open>\<^verbatim>\<open>m.items[key] = value\<close>; \<open>None\<close> is the panic of an assignment into a nil map.\<close>

definition items_assign :: "'v state \<Rightarrow> key \<Rightarrow> 'v iface \<Rightarrow> 'v state option" where
  "items_assign m key v =
     (case items m of None \<Rightarrow> None | Some a \<Rightarrow> Some (map_assign a key v m))"

text \<open>\<^verbatim>\<open>beingFetched := m.isBeingFetchedMap[key]\<close> (lines 68 and 132).\<close>

definition being_fetched :: "'v state \<Rightarrow> key \<Rightarrow> bool" where
  "being_fetched m key =
     (case isBeingFetchedMap m of
        None \<Rightarrow> False
      | Some fl \<Rightarrow> (case map_of fl key of None \<Rightarrow> False | Some b \<Rightarrow> b))"

text \<open>
  Lines 72 to 80 (and 137 to 145): set the flag, find or create the key's wait group,
  \<^verbatim>\<open>Add(1)\<close>. \<open>Inl\<close> is a panic, with the state it leaves: line 73 on a nil flag map,
  line 77 on a nil wait-group map (the flag is set by then).
\<close>

definition begin_fetch :: "'v state \<Rightarrow> key \<Rightarrow> 'v state + 'v state" where
  "begin_fetch m key =
     (case isBeingFetchedMap m of
        None \<Rightarrow> Inl m
      | Some fl \<Rightarrow>
          (let m1 = m\<lparr>isBeingFetchedMap := Some (AList.update key True fl)\<rparr> in
           case isBeingFetchedWG m1 of
             None \<Rightarrow> Inl m1
           | Some wgs \<Rightarrow>
               (case map_of wgs key of
                  None \<Rightarrow> Inr (m1\<lparr>isBeingFetchedWG := Some (AList.update key (Suc 0) wgs)\<rparr>)
                | Some n \<Rightarrow> Inr (m1\<lparr>isBeingFetchedWG := Some (AList.update key (Suc n) wgs)\<rparr>))))"

text \<open>
  \<^verbatim>\<open>wg.Done()\<close> on the key's wait group. \<open>None\<close> is a panic: the counter would go
  negative (or there is no such wait group, which \<open>begin_fetch\<close> excludes).
\<close>

definition wg_Done :: "'v state \<Rightarrow> key \<Rightarrow> 'v state option" where
  "wg_Done m key =
     (case isBeingFetchedWG m of
        None \<Rightarrow> None
      | Some wgs \<Rightarrow>
          (case map_of wgs key of
             None \<Rightarrow> None
           | Some n \<Rightarrow>
               if n = 0 then None
               else Some (m\<lparr>isBeingFetchedWG := Some (AList.update key (n - 1) wgs)\<rparr>)))"

text \<open>
  \<^verbatim>\<open>m.isBeingFetchedWG[key].Wait()\<close> (lines 97 and 162): a nil wait group panics, a
  counter of zero lets the caller through, any other counter blocks it. The wait group
  is its counter only: the panic of \<^verbatim>\<open>sync.WaitGroup\<close> on an \<^verbatim>\<open>Add\<close> that arrives
  between a \<^verbatim>\<open>Done\<close> and the return of a released \<^verbatim>\<open>Wait\<close> is not described, and no
  schedule below has such an \<^verbatim>\<open>Add\<close>.
\<close>

datatype wait = Ready | Blocked | NilWG

definition wg_Wait :: "'v state \<Rightarrow> key \<Rightarrow> wait" where
  "wg_Wait m key =
     (case isBeingFetchedWG m of
        None \<Rightarrow> NilWG
      | Some wgs \<Rightarrow>
          (case map_of wgs key of
             None \<Rightarrow> NilWG
           | Some n \<Rightarrow> if n = 0 then Ready else Blocked))"

text \<open>\<^verbatim>\<open>m.isBeingFetchedMap[key] = false\<close> (lines 94 and 159).\<close>

definition flag_clear :: "'v state \<Rightarrow> key \<Rightarrow> 'v state option" where
  "flag_clear m key =
     (case isBeingFetchedMap m of
        None \<Rightarrow> None
      | Some fl \<Rightarrow> Some (m\<lparr>isBeingFetchedMap := Some (AList.update key False fl)\<rparr>))"

text \<open>\<^verbatim>\<open>m.fetch(key)\<close>; \<open>None\<close> is the panic of calling a nil function.\<close>

definition call_fetch :: "'v state \<Rightarrow> key \<Rightarrow> (('v iface \<times> error option) \<times> 'v state) option" where
  "call_fetch m key =
     (case fetch m of
        None \<Rightarrow> None
      | Some f \<Rightarrow> Some (f (calls m) key, m\<lparr>calls := calls m @ [key]\<rparr>))"

text \<open>
  \<^verbatim>\<open>defer wg.Done()\<close> (lines 81 and 146): the wait group is released on the way out,
  whether the function returns or panics.
\<close>

definition deferred_Done :: "'a outcome \<Rightarrow> 'v state \<Rightarrow> key \<Rightarrow> 'a outcome \<times> 'v state" where
  "deferred_Done r m key =
     (case wg_Done m key of None \<Rightarrow> (Panics, m) | Some m' \<Rightarrow> (r, m'))"

subsection \<open>New (lines 23 to 47)\<close>

definition New ::
  "'v fetcher option \<Rightarrow> 'v prewarm option \<Rightarrow> 'v heap \<Rightarrow> 'v state option \<times> error option" where
  "New fetch' preWarmInit' h =
     (case preWarmInit' of
        Some p \<Rightarrow>
          (case p h of
             ((items', err), h1) \<Rightarrow>
               if err \<noteq> None then (None, err)
               else (Some \<lparr>items = items', fetch = fetch',
                            isBeingFetchedMap = Some [], isBeingFetchedWG = Some [],
                            preWarmInit = preWarmInit', heap = h1, calls = []\<rparr>, None))
      | None \<Rightarrow>
          (Some \<lparr>items = Some (length h), fetch = fetch',
                 isBeingFetchedMap = Some [], isBeingFetchedWG = Some [],
                 preWarmInit = preWarmInit', heap = h @ [[]], calls = []\<rparr>, None))"

text \<open>
  The zero value \<^verbatim>\<open>Cache{}\<close>: every map and function field is nil. The tests build it
  as \<^verbatim>\<open>&Cache{}\<close>.
\<close>

definition zero_Cache :: "'v heap \<Rightarrow> 'v state" where
  "zero_Cache h =
     \<lparr>items = None, fetch = None, isBeingFetchedMap = None, isBeingFetchedWG = None,
      preWarmInit = None, heap = h, calls = []\<rparr>"

subsection \<open>Get (lines 54 to 104)\<close>

text \<open>
  One call of \<^verbatim>\<open>Get\<close> with no other goroutine running. Every path releases the
  mutexes it takes, so alone they never block and they change no data.
\<close>

definition Get :: "'v state \<Rightarrow> key \<Rightarrow> ('v iface \<times> error option) outcome \<times> 'v state" where
  "Get m key =
     (if items m = None then (Returns (NilVal, Some ErrNotInitialized), m)
      else
        case items_lookup m key of
          Some v \<Rightarrow> (Returns (v, None), m)
        | None \<Rightarrow>
            if \<not> being_fetched m key then
              (case begin_fetch m key of
                 Inl m1 \<Rightarrow> (Panics, m1)
               | Inr m1 \<Rightarrow>
                   (case call_fetch m1 key of
                      None \<Rightarrow> deferred_Done Panics m1 key
                    | Some ((v, err), m2) \<Rightarrow>
                        if err \<noteq> None then deferred_Done (Returns (v, err)) m2 key
                        else
                          (case items_assign m2 key v of
                             None \<Rightarrow> deferred_Done Panics m2 key
                           | Some m3 \<Rightarrow>
                               (case flag_clear m3 key of
                                  None \<Rightarrow> deferred_Done Panics m3 key
                                | Some m4 \<Rightarrow> deferred_Done (Returns (v, None)) m4 key))))
            else
              (case wg_Wait m key of
                 NilWG \<Rightarrow> (Panics, m)
               | Blocked \<Rightarrow> (Blocks, m)
               | Ready \<Rightarrow>
                   (Returns (case items_lookup m key of None \<Rightarrow> NilVal | Some v \<Rightarrow> v, None), m)))"

subsection \<open>GetAll (lines 108 to 119)\<close>

text \<open>
  The result map is allocated first (line 109), also on the path that returns nil. The
  loop of lines 115 to 117 walks the entries of \<^verbatim>\<open>m.items\<close> and assigns each into the
  new object. The result is the address of that object, or nil.
\<close>

definition GetAll :: "'v state \<Rightarrow> addr option \<times> 'v state" where
  "GetAll m =
     (case make_map m of
        (items', m1) \<Rightarrow>
          (case items m1 of
             None \<Rightarrow> (None, m1)
           | Some a \<Rightarrow>
               (Some items', fold (\<lambda>(k, v). map_assign items' k v) (obj (heap m1) a) m1)))"

subsection \<open>Clear (lines 121 to 126, and lines 240 to 248 of the earlier revision)\<close>

text \<open>The main revision: no result, no check; \<^verbatim>\<open>m.items\<close> is pointed at a new empty map.\<close>

definition Clear :: "'v state \<Rightarrow> 'v state" where
  "Clear m = (case make_map m of (a, m1) \<Rightarrow> m1\<lparr>items := Some a\<rparr>)"

text \<open>The earlier revision returns an error and checks for the nil map first.\<close>

definition Clear_240 :: "'v state \<Rightarrow> error option \<times> 'v state" where
  "Clear_240 m =
     (if items m = None then (Some ErrNotInitialized, m)
      else (case make_map m of (a, m1) \<Rightarrow> (None, m1\<lparr>items := Some a\<rparr>)))"

subsection \<open>Update (lines 130 to 172)\<close>

definition Update :: "'v state \<Rightarrow> key \<Rightarrow> error option outcome \<times> 'v state" where
  "Update m key =
     (if \<not> being_fetched m key then
        (case begin_fetch m key of
           Inl m1 \<Rightarrow> (Panics, m1)
         | Inr m1 \<Rightarrow>
             (case call_fetch m1 key of
                None \<Rightarrow> deferred_Done Panics m1 key
              | Some ((v, err), m2) \<Rightarrow>
                  if err \<noteq> None then deferred_Done (Returns err) m2 key
                  else
                    (case items_assign m2 key v of
                       None \<Rightarrow> deferred_Done Panics m2 key
                     | Some m3 \<Rightarrow>
                         (case flag_clear m3 key of
                            None \<Rightarrow> deferred_Done Panics m3 key
                          | Some m4 \<Rightarrow> deferred_Done (Returns None) m4 key))))
      else
        (case wg_Wait m key of
           NilWG \<Rightarrow> (Panics, m)
         | Blocked \<Rightarrow> (Blocks, m)
         | Ready \<Rightarrow>
             (case call_fetch m key of
                None \<Rightarrow> (Panics, m)
              | Some ((v, err), m2) \<Rightarrow>
                  if err \<noteq> None then (Returns err, m2)
                  else
                    (case items_assign m2 key v of
                       None \<Rightarrow> (Panics, m2)
                     | Some m3 \<Rightarrow> (Returns None, m3)))))"

subsection \<open>Sequences of calls\<close>

text \<open>
  A caller's program: calls made one after the other on the same cache, each returning
  before the next starts. A call that panics or blocks ends the run (\<open>None\<close>).
\<close>

datatype op = OpGet key | OpGetAll | OpClear | OpUpdate key

fun apply_op :: "'v state \<Rightarrow> op \<Rightarrow> 'v state option" where
  "apply_op m (OpGet k) = (case Get m k of (Returns r, m') \<Rightarrow> Some m' | _ \<Rightarrow> None)"
| "apply_op m OpGetAll = Some (snd (GetAll m))"
| "apply_op m OpClear = Some (Clear m)"
| "apply_op m (OpUpdate k) = (case Update m k of (Returns r, m') \<Rightarrow> Some m' | _ \<Rightarrow> None)"

fun run_ops :: "'v state \<Rightarrow> op list \<Rightarrow> 'v state option" where
  "run_ops m [] = Some m"
| "run_ops m (x # xs) = (case apply_op m x of None \<Rightarrow> None | Some m' \<Rightarrow> run_ops m' xs)"

text \<open>The counter of a key's wait group, zero when the key has none yet.\<close>

definition counter :: "(key \<times> nat) list \<Rightarrow> key \<Rightarrow> nat" where
  "counter wgs k = (case map_of wgs k of None \<Rightarrow> 0 | Some n \<Rightarrow> n)"

subsection \<open>What a successful fetch is\<close>

text \<open>
  The address in \<^verbatim>\<open>items\<close> names an object of the heap (always so in a Go program).
\<close>

definition valid_items :: "'v state \<Rightarrow> bool" where
  "valid_items m = (case items m of None \<Rightarrow> False | Some a \<Rightarrow> a < length (heap m))"

text \<open>
  A call \<^verbatim>\<open>Get(K)\<close> that called the fetcher and returned \<open>V\<close> with no error (the leader
  path); a call \<^verbatim>\<open>Update(K)\<close> that returned no error, the fetcher having produced \<open>V\<close>;
  a construction whose prewarm function returned a map holding \<open>V\<close> under \<open>K\<close>.
\<close>

definition fetched_by_Get :: "'v state \<Rightarrow> key \<Rightarrow> 'v iface \<Rightarrow> 'v state \<Rightarrow> bool" where
  "fetched_by_Get m0 K V m \<longleftrightarrow>
     valid_items m0 \<and> Get m0 K = (Returns (V, None), m) \<and> calls m = calls m0 @ [K]"

definition fetched_by_Update :: "'v state \<Rightarrow> key \<Rightarrow> 'v iface \<Rightarrow> 'v state \<Rightarrow> bool" where
  "fetched_by_Update m0 K V m \<longleftrightarrow>
     valid_items m0 \<and> Update m0 K = (Returns None, m)
     \<and> (case fetch m0 of None \<Rightarrow> False | Some f \<Rightarrow> fst (f (calls m0) K) = V)"

definition prewarmed ::
  "'v fetcher option \<Rightarrow> 'v prewarm \<Rightarrow> 'v heap \<Rightarrow> key \<Rightarrow> 'v iface \<Rightarrow> 'v state \<Rightarrow> bool" where
  "prewarmed f p h K V m \<longleftrightarrow>
     New f (Some p) h = (Some m, None)
     \<and> (case p h of ((None, e), h1) \<Rightarrow> False | ((Some a, e), h1) \<Rightarrow> map_of (obj h1 a) K = Some V)"

subsection \<open>Well-formed states\<close>

text \<open>
  What every state of a Go program satisfies: the keys of each map object are pairwise
  distinct, and \<^verbatim>\<open>items\<close>, when it is not nil, names an object of the heap.
\<close>

definition heap_ok :: "'v heap \<Rightarrow> bool" where
  "heap_ok h = list_all (\<lambda>x. distinct (map fst x)) h"

definition well_formed :: "'v state \<Rightarrow> bool" where
  "well_formed m \<longleftrightarrow>
     heap_ok (heap m) \<and> (case items m of None \<Rightarrow> True | Some a \<Rightarrow> a < length (heap m))"

subsection \<open>Goroutines\<close>

text \<open>
  Several calls at once. A goroutine inside \<^verbatim>\<open>Get\<close> or \<^verbatim>\<open>Update\<close> is at one of the
  points below, named by the line it is about to execute, with the locals it holds. One
  step is what the code does under one acquisition of a mutex (lines 56 to 63, 67 to
  69, 72 to 80, 89 to 91, 93 to 95, 98 to 100, and their twins in \<^verbatim>\<open>Update\<close>), or one
  operation on a wait group, or the start or the end of the call of the fetcher: the
  mutexes make each of these indivisible for the data they guard, and nothing else is
  shared. \<^verbatim>\<open>GetAll\<close> holds the read lock from its first read to its last, and \<^verbatim>\<open>Clear\<close>
  is one assignment under the write lock: each is one step. A goroutine is fetching from
  the call of \<^verbatim>\<open>m.fetch\<close> until its return; the result it will return is fixed when the
  call starts. \<^verbatim>\<open>Wait\<close> can take no step while the counter is positive.
\<close>

datatype 'v thread =
    Get_56 key
  | Get_67 key
  | Get_72 key
  | Get_84 key
  | Get_fetching key "'v iface" "error option"
  | Get_89 key "'v iface"
  | Get_93 key "'v iface"
  | Get_return key "'v iface" "error option"
  | Get_97 key
  | Get_98 key
  | Update_131 key
  | Update_137 key
  | Update_149 key
  | Update_fetching key "'v iface" "error option"
  | Update_154 key "'v iface"
  | Update_158 key
  | Update_return key "error option"
  | Update_162 key
  | Update_163 key
  | Update_fetching_163 key "'v iface" "error option"
  | Update_167 key "'v iface"
  | GetAll_108
  | Clear_121
  | Got "'v iface" "error option"
  | Updated "error option"
  | GotAll "addr option"
  | Cleared
  | Panicked

fun advance :: "'v thread \<Rightarrow> 'v state \<Rightarrow> ('v thread \<times> 'v state) option" where
  "advance (Get_56 k) m =
     Some (if items m = None then Got NilVal (Some ErrNotInitialized)
           else (case items_lookup m k of Some v \<Rightarrow> Got v None | None \<Rightarrow> Get_67 k), m)"
| "advance (Get_67 k) m = Some (if \<not> being_fetched m k then Get_72 k else Get_97 k, m)"
| "advance (Get_72 k) m =
     Some (case begin_fetch m k of Inl m1 \<Rightarrow> (Panicked, m1) | Inr m1 \<Rightarrow> (Get_84 k, m1))"
| "advance (Get_84 k) m =
     Some (case call_fetch m k of
             None \<Rightarrow> (Panicked, snd (deferred_Done (Panics :: unit outcome) m k))
           | Some ((v, err), m2) \<Rightarrow> (Get_fetching k v err, m2))"
| "advance (Get_fetching k v err) m =
     Some (if err \<noteq> None then Get_return k v err else Get_89 k v, m)"
| "advance (Get_89 k v) m =
     Some (case items_assign m k v of
             None \<Rightarrow> (Panicked, snd (deferred_Done (Panics :: unit outcome) m k))
           | Some m3 \<Rightarrow> (Get_93 k v, m3))"
| "advance (Get_93 k v) m =
     Some (case flag_clear m k of
             None \<Rightarrow> (Panicked, snd (deferred_Done (Panics :: unit outcome) m k))
           | Some m4 \<Rightarrow> (Get_return k v None, m4))"
| "advance (Get_return k v err) m =
     Some (case wg_Done m k of None \<Rightarrow> (Panicked, m) | Some m' \<Rightarrow> (Got v err, m'))"
| "advance (Get_97 k) m =
     (case wg_Wait m k of
        NilWG \<Rightarrow> Some (Panicked, m)
      | Blocked \<Rightarrow> None
      | Ready \<Rightarrow> Some (Get_98 k, m))"
| "advance (Get_98 k) m =
     Some (Got (case items_lookup m k of None \<Rightarrow> NilVal | Some v \<Rightarrow> v) None, m)"
| "advance (Update_131 k) m = Some (if \<not> being_fetched m k then Update_137 k else Update_162 k, m)"
| "advance (Update_137 k) m =
     Some (case begin_fetch m k of Inl m1 \<Rightarrow> (Panicked, m1) | Inr m1 \<Rightarrow> (Update_149 k, m1))"
| "advance (Update_149 k) m =
     Some (case call_fetch m k of
             None \<Rightarrow> (Panicked, snd (deferred_Done (Panics :: unit outcome) m k))
           | Some ((v, err), m2) \<Rightarrow> (Update_fetching k v err, m2))"
| "advance (Update_fetching k v err) m =
     Some (if err \<noteq> None then Update_return k err else Update_154 k v, m)"
| "advance (Update_154 k v) m =
     Some (case items_assign m k v of
             None \<Rightarrow> (Panicked, snd (deferred_Done (Panics :: unit outcome) m k))
           | Some m3 \<Rightarrow> (Update_158 k, m3))"
| "advance (Update_158 k) m =
     Some (case flag_clear m k of
             None \<Rightarrow> (Panicked, snd (deferred_Done (Panics :: unit outcome) m k))
           | Some m4 \<Rightarrow> (Update_return k None, m4))"
| "advance (Update_return k err) m =
     Some (case wg_Done m k of None \<Rightarrow> (Panicked, m) | Some m' \<Rightarrow> (Updated err, m'))"
| "advance (Update_162 k) m =
     (case wg_Wait m k of
        NilWG \<Rightarrow> Some (Panicked, m)
      | Blocked \<Rightarrow> None
      | Ready \<Rightarrow> Some (Update_163 k, m))"
| "advance (Update_163 k) m =
     Some (case call_fetch m k of
             None \<Rightarrow> (Panicked, m)
           | Some ((v, err), m2) \<Rightarrow> (Update_fetching_163 k v err, m2))"
| "advance (Update_fetching_163 k v err) m =
     Some (if err \<noteq> None then Updated err else Update_167 k v, m)"
| "advance (Update_167 k v) m =
     Some (case items_assign m k v of None \<Rightarrow> (Panicked, m) | Some m3 \<Rightarrow> (Updated None, m3))"
| "advance GetAll_108 m = Some (case GetAll m of (r, m') \<Rightarrow> (GotAll r, m'))"
| "advance Clear_121 m = Some (Cleared, Clear m)"
| "advance (Got v err) m = None"
| "advance (Updated err) m = None"
| "advance (GotAll r) m = None"
| "advance Cleared m = None"
| "advance Panicked m = None"

text \<open>The goroutine is inside a call of the fetcher for key \<open>K\<close>.\<close>

fun fetching :: "key \<Rightarrow> 'v thread \<Rightarrow> bool" where
  "fetching K (Get_fetching k v err) = (k = K)"
| "fetching K (Update_fetching k v err) = (k = K)"
| "fetching K (Update_fetching_163 k v err) = (k = K)"
| "fetching K t = False"

text \<open>The next step of the goroutine assigns to \<^verbatim>\<open>items[K]\<close>, or replaces \<^verbatim>\<open>items\<close>.\<close>

fun storing :: "key \<Rightarrow> 'v thread \<Rightarrow> bool" where
  "storing K (Get_89 k v) = (k = K)"
| "storing K (Update_154 k v) = (k = K)"
| "storing K (Update_167 k v) = (k = K)"
| "storing K Clear_121 = True"
| "storing K t = False"

text \<open>
  A system is the shared state and the goroutines; a schedule is the list of the
  goroutines that step, in order. A step of a finished, blocked or missing goroutine is
  \<open>None\<close>.
\<close>

record 'v system =
  shared :: "'v state"
  threads :: "'v thread list"

definition step :: "nat \<Rightarrow> 'v system \<Rightarrow> 'v system option" where
  "step i s =
     (if i < length (threads s) then
        (case advance (threads s ! i) (shared s) of
           None \<Rightarrow> None
         | Some (t', m') \<Rightarrow> Some \<lparr>shared = m', threads = (threads s)[i := t']\<rparr>)
      else None)"

fun run :: "nat list \<Rightarrow> 'v system \<Rightarrow> 'v system option" where
  "run [] s = Some s"
| "run (i # is) s = (case step i s of None \<Rightarrow> None | Some s' \<Rightarrow> run is s')"

text \<open>A goroutine running alone, for at most \<open>n\<close> steps.\<close>

fun solo :: "nat \<Rightarrow> 'v thread \<Rightarrow> 'v state \<Rightarrow> 'v thread \<times> 'v state" where
  "solo 0 t m = (t, m)"
| "solo (Suc n) t m = (case advance t m of None \<Rightarrow> (t, m) | Some (t', m') \<Rightarrow> solo n t' m')"

subsection \<open>Caches and fetchers used as examples\<close>

text \<open>
  A fetcher that returns the number of calls made before, so that no two calls return
  the same value; a fetcher that fails on its first call and succeeds from then on.
\<close>

definition counting :: "nat fetcher" where
  "counting cs k = (Val (length cs), None)"

definition flaky :: "nat fetcher" where
  "flaky cs k = (if cs = [] then (NilVal, Some (ErrOther ''boom'')) else (Val (length cs), None))"

text \<open>The cache that \<^verbatim>\<open>New(f, nil)\<close> returns in an empty heap.\<close>

definition fresh :: "'v fetcher \<Rightarrow> 'v state" where
  "fresh f =
     \<lparr>items = Some 0, fetch = Some f, isBeingFetchedMap = Some [], isBeingFetchedWG = Some [],
      preWarmInit = None, heap = [[]], calls = []\<rparr>"

text \<open>A prewarm function that returns two entries, and one that returns a nil map and no error.\<close>

definition preWarm12 :: "nat prewarm" where
  "preWarm12 h = ((Some (length h), None), h @ [[(''1'', Val 11), (''2'', Val 12)]])"

definition preWarmNil :: "nat prewarm" where
  "preWarmNil h = ((None, None), h)"

text \<open>
  States met below: after \<^verbatim>\<open>Get("a")\<close> on \<open>fresh counting\<close>; after four more calls;
  after \<^verbatim>\<open>New(counting, &preWarm12)\<close>; after \<^verbatim>\<open>New(f, &preWarmNil)\<close>; after a failed
  fetch of \<^verbatim>\<open>"k"\<close>, and during it; with one or two fetches of \<^verbatim>\<open>"k"\<close> under way; after
  the first of two leaders has stored its value; after two and three fetches of \<^verbatim>\<open>"k"\<close>.
\<close>

definition after_a :: "nat state" where
  "after_a =
     \<lparr>items = Some 0, fetch = Some counting, isBeingFetchedMap = Some [(''a'', False)],
      isBeingFetchedWG = Some [(''a'', 0)], preWarmInit = None,
      heap = [[(''a'', Val 0)]], calls = [''a'']\<rparr>"

definition after_a_b :: "nat state" where
  "after_a_b =
     \<lparr>items = Some 0, fetch = Some counting,
      isBeingFetchedMap = Some [(''a'', False), (''b'', False)],
      isBeingFetchedWG = Some [(''a'', 0), (''b'', 0)], preWarmInit = None,
      heap = [[(''a'', Val 0), (''b'', Val 2)], [(''a'', Val 0), (''b'', Val 1)]],
      calls = [''a'', ''b'', ''b'']\<rparr>"

definition warm :: "nat state" where
  "warm =
     \<lparr>items = Some 0, fetch = Some counting, isBeingFetchedMap = Some [],
      isBeingFetchedWG = Some [], preWarmInit = Some preWarm12,
      heap = [[(''1'', Val 11), (''2'', Val 12)]], calls = []\<rparr>"

definition nilwarm :: "nat fetcher \<Rightarrow> nat state" where
  "nilwarm f =
     \<lparr>items = None, fetch = Some f, isBeingFetchedMap = Some [], isBeingFetchedWG = Some [],
      preWarmInit = Some preWarmNil, heap = [], calls = []\<rparr>"

definition failed_k :: "nat state" where
  "failed_k =
     \<lparr>items = Some 0, fetch = Some flaky, isBeingFetchedMap = Some [(''k'', True)],
      isBeingFetchedWG = Some [(''k'', 0)], preWarmInit = None, heap = [[]], calls = [''k'']\<rparr>"

definition failing :: "nat state" where
  "failing =
     \<lparr>items = Some 0, fetch = Some flaky, isBeingFetchedMap = Some [(''k'', True)],
      isBeingFetchedWG = Some [(''k'', 1)], preWarmInit = None, heap = [[]], calls = [''k'']\<rparr>"

definition one_fetching :: "nat state" where
  "one_fetching =
     \<lparr>items = Some 0, fetch = Some counting, isBeingFetchedMap = Some [(''k'', True)],
      isBeingFetchedWG = Some [(''k'', 1)], preWarmInit = None, heap = [[]],
      calls = [''k'']\<rparr>"

definition two_fetching :: "nat state" where
  "two_fetching =
     \<lparr>items = Some 0, fetch = Some counting, isBeingFetchedMap = Some [(''k'', True)],
      isBeingFetchedWG = Some [(''k'', 2)], preWarmInit = None, heap = [[]],
      calls = [''k'', ''k'']\<rparr>"

definition first_stored :: "nat state" where
  "first_stored =
     \<lparr>items = Some 0, fetch = Some counting, isBeingFetchedMap = Some [(''k'', False)],
      isBeingFetchedWG = Some [(''k'', 1)], preWarmInit = None, heap = [[(''k'', Val 0)]],
      calls = [''k'', ''k'']\<rparr>"

definition two_fetched :: "nat state" where
  "two_fetched =
     \<lparr>items = Some 0, fetch = Some counting, isBeingFetchedMap = Some [(''k'', False)],
      isBeingFetchedWG = Some [(''k'', 0)], preWarmInit = None, heap = [[(''k'', Val 1)]],
      calls = [''k'', ''k'']\<rparr>"

definition three_fetched :: "nat state" where
  "three_fetched =
     \<lparr>items = Some 0, fetch = Some counting, isBeingFetchedMap = Some [(''k'', False)],
      isBeingFetchedWG = Some [(''k'', 0)], preWarmInit = None, heap = [[(''k'', Val 0)]],
      calls = [''k'', ''k'', ''k'']\<rparr>"

section \<open>Properties\<close>

lemmas step_defs =
  obj_def make_map_def items_lookup_def map_assign_def items_assign_def being_fetched_def
  begin_fetch_def wg_Done_def wg_Wait_def flag_clear_def call_fetch_def deferred_Done_def

subsection \<open>The paths through Get and Update\<close>

lemma items_lookup_valid:
  "items_lookup m k = Some v \<Longrightarrow> \<exists>a. items m = Some a \<and> a < length (heap m)"
  by (auto simp: items_lookup_def obj_def split: option.splits if_splits)

lemma Get_hit: "items_lookup m K = Some V \<Longrightarrow> Get m K = (Returns (V, None), m)"
  by (auto simp: Get_def items_lookup_def split: option.splits)

lemma begin_fetch_ok:
  "isBeingFetchedMap m = Some fl \<Longrightarrow> isBeingFetchedWG m = Some wgs \<Longrightarrow>
   begin_fetch m k =
     Inr (m\<lparr>isBeingFetchedMap := Some (AList.update k True fl),
            isBeingFetchedWG := Some (AList.update k (Suc (counter wgs k)) wgs)\<rparr>)"
  by (simp add: begin_fetch_def counter_def split: option.splits)

lemma wg_Done_after_begin:
  "isBeingFetchedWG m = Some (AList.update k (Suc n) wgs) \<Longrightarrow>
   wg_Done m k = Some (m\<lparr>isBeingFetchedWG := Some (AList.update k n wgs)\<rparr>)"
  by (simp add: wg_Done_def update_conv')

lemma Get_leader_error:
  assumes "items m = Some a" "items_lookup m k = None" "\<not> being_fetched m k"
    "isBeingFetchedMap m = Some fl" "isBeingFetchedWG m = Some wgs"
    "fetch m = Some f" "f (calls m) k = (v, Some e)"
  shows "Get m k =
    (Returns (v, Some e),
     m\<lparr>isBeingFetchedMap := Some (AList.update k True fl),
       isBeingFetchedWG := Some (AList.update k (counter wgs k) wgs),
       calls := calls m @ [k]\<rparr>)"
  using assms
  by (simp add: Get_def begin_fetch_ok call_fetch_def deferred_Done_def wg_Done_after_begin)

lemma Get_leader_ok:
  assumes "items m = Some a" "items_lookup m k = None" "\<not> being_fetched m k"
    "isBeingFetchedMap m = Some fl" "isBeingFetchedWG m = Some wgs"
    "fetch m = Some f" "f (calls m) k = (v, None)"
  shows "Get m k =
    (Returns (v, None),
     m\<lparr>isBeingFetchedMap := Some (AList.update k False fl),
       isBeingFetchedWG := Some (AList.update k (counter wgs k) wgs),
       calls := calls m @ [k],
       heap := (heap m)[a := AList.update k v (obj (heap m) a)]\<rparr>)"
  using assms
  by (simp add: Get_def begin_fetch_ok call_fetch_def deferred_Done_def wg_Done_after_begin
        items_assign_def map_assign_def flag_clear_def)

lemma Get_leader_panics:
  assumes "items m = Some a" "items_lookup m k = None" "\<not> being_fetched m k"
    "isBeingFetchedMap m = None \<or> isBeingFetchedWG m = None \<or> fetch m = None"
  shows "fst (Get m k) = Panics"
proof (cases "isBeingFetchedMap m")
  case None
  with assms(1-3) show ?thesis by (simp add: Get_def begin_fetch_def)
next
  case (Some fl)
  show ?thesis
  proof (cases "isBeingFetchedWG m")
    case None
    with Some assms(1-3) show ?thesis by (simp add: Get_def begin_fetch_def)
  next
    case wg: (Some wgs)
    with Some assms(4) have "fetch m = None" by simp
    with Some wg assms(1-3) show ?thesis
      by (simp add: Get_def begin_fetch_ok call_fetch_def deferred_Done_def wg_Done_after_begin)
  qed
qed

lemma Get_follower:
  assumes "items m = Some a" "items_lookup m k = None" "being_fetched m k"
  shows "Get m k =
    (case wg_Wait m k of NilWG \<Rightarrow> Panics | Blocked \<Rightarrow> Blocks | Ready \<Rightarrow> Returns (NilVal, None), m)"
  using assms
  by (simp add: Get_def split: wait.splits)

lemma Update_no_flag_map:
  "isBeingFetchedMap m = None \<Longrightarrow> Update m k = (Panics, m)"
  by (simp add: Update_def being_fetched_def begin_fetch_def)

lemma Update_leader_panics:
  assumes "\<not> being_fetched m k"
    "isBeingFetchedMap m = None \<or> isBeingFetchedWG m = None \<or> fetch m = None"
  shows "fst (Update m k) = Panics"
proof (cases "isBeingFetchedMap m")
  case None
  with assms(1) show ?thesis by (simp add: Update_def begin_fetch_def)
next
  case (Some fl)
  show ?thesis
  proof (cases "isBeingFetchedWG m")
    case None
    with Some assms(1) show ?thesis by (simp add: Update_def begin_fetch_def)
  next
    case wg: (Some wgs)
    with Some assms(2) have "fetch m = None" by simp
    with Some wg assms(1) show ?thesis
      by (simp add: Update_def begin_fetch_ok call_fetch_def deferred_Done_def wg_Done_after_begin)
  qed
qed

lemma Update_leader_error:
  assumes "\<not> being_fetched m k"
    "isBeingFetchedMap m = Some fl" "isBeingFetchedWG m = Some wgs"
    "fetch m = Some f" "f (calls m) k = (v, Some e)"
  shows "Update m k =
    (Returns (Some e),
     m\<lparr>isBeingFetchedMap := Some (AList.update k True fl),
       isBeingFetchedWG := Some (AList.update k (counter wgs k) wgs),
       calls := calls m @ [k]\<rparr>)"
  using assms
  by (simp add: Update_def begin_fetch_ok call_fetch_def deferred_Done_def wg_Done_after_begin)

lemma Update_leader_ok:
  assumes "\<not> being_fetched m k" "items m = Some a"
    "isBeingFetchedMap m = Some fl" "isBeingFetchedWG m = Some wgs"
    "fetch m = Some f" "f (calls m) k = (v, None)"
  shows "Update m k =
    (Returns None,
     m\<lparr>isBeingFetchedMap := Some (AList.update k False fl),
       isBeingFetchedWG := Some (AList.update k (counter wgs k) wgs),
       calls := calls m @ [k],
       heap := (heap m)[a := AList.update k v (obj (heap m) a)]\<rparr>)"
  using assms
  by (simp add: Update_def begin_fetch_ok call_fetch_def deferred_Done_def wg_Done_after_begin
        items_assign_def map_assign_def flag_clear_def)

lemma Update_leader_nil_items:
  assumes "\<not> being_fetched m k" "items m = None"
    "isBeingFetchedMap m = Some fl" "isBeingFetchedWG m = Some wgs"
    "fetch m = Some f" "f (calls m) k = (v, None)"
  shows "Update m k =
    (Panics,
     m\<lparr>isBeingFetchedMap := Some (AList.update k True fl),
       isBeingFetchedWG := Some (AList.update k (counter wgs k) wgs),
       calls := calls m @ [k]\<rparr>)"
  using assms
  by (simp add: Update_def begin_fetch_ok call_fetch_def deferred_Done_def wg_Done_after_begin
        items_assign_def)

lemma Update_follower:
  assumes "being_fetched m k"
  shows "Update m k =
    (case wg_Wait m k of
       NilWG \<Rightarrow> (Panics, m)
     | Blocked \<Rightarrow> (Blocks, m)
     | Ready \<Rightarrow>
         (case fetch m of
            None \<Rightarrow> (Panics, m)
          | Some f \<Rightarrow>
              (case f (calls m) k of
                 (v, Some e) \<Rightarrow> (Returns (Some e), m\<lparr>calls := calls m @ [k]\<rparr>)
               | (v, None) \<Rightarrow>
                   (case items m of
                      None \<Rightarrow> (Panics, m\<lparr>calls := calls m @ [k]\<rparr>)
                    | Some a \<Rightarrow>
                        (Returns None,
                         m\<lparr>calls := calls m @ [k],
                           heap := (heap m)[a := AList.update k v (obj (heap m) a)]\<rparr>)))))"
  using assms
  by (simp add: Update_def call_fetch_def items_assign_def map_assign_def
      split: wait.splits option.splits prod.splits)

lemma Get_Returns_cases:
  assumes "Get m k = (Returns r, m')"
  obtains (same) "m' = m"
  | (error) fl wgs where "m' = m\<lparr>isBeingFetchedMap := Some (AList.update k True fl),
       isBeingFetchedWG := Some (AList.update k (counter wgs k) wgs),
       calls := calls m @ [k]\<rparr>"
  | (stored) a fl wgs v where "items m = Some a"
      "m' = m\<lparr>isBeingFetchedMap := Some (AList.update k False fl),
       isBeingFetchedWG := Some (AList.update k (counter wgs k) wgs),
       calls := calls m @ [k],
       heap := (heap m)[a := AList.update k v (obj (heap m) a)]\<rparr>"
proof (cases "items m")
  case None
  with assms have "m' = m" by (simp add: Get_def)
  then show ?thesis by (rule same)
next
  case (Some a)
  show ?thesis
  proof (cases "items_lookup m k")
    case hit: (Some v)
    from Get_hit [OF hit] assms have "m' = m" by simp
    then show ?thesis by (rule same)
  next
    case None
    show ?thesis
    proof (cases "being_fetched m k")
      case True
      from Get_follower [OF Some None True] assms have "m' = m" by simp
      then show ?thesis by (rule same)
    next
      case False
      show ?thesis
      proof (cases "isBeingFetchedMap m = None \<or> isBeingFetchedWG m = None \<or> fetch m = None")
        case True
        from Get_leader_panics [OF Some None False True] assms show ?thesis by simp
      next
        case nonnil: False
        then obtain fl wgs f where t: "isBeingFetchedMap m = Some fl"
          "isBeingFetchedWG m = Some wgs" "fetch m = Some f" by auto
        obtain v err where f: "f (calls m) k = (v, err)" by (cases "f (calls m) k")
        show ?thesis
        proof (cases err)
          case e: None
          from Get_leader_ok [OF Some None False t f [unfolded e]] assms
          show ?thesis by (intro stored [OF Some]) simp
        next
          case e: (Some e)
          from Get_leader_error [OF Some None False t f [unfolded e]] assms
          show ?thesis by (intro error) simp
        qed
      qed
    qed
  qed
qed

lemma Update_Returns_cases:
  assumes "Update m k = (Returns r, m')"
  obtains (error) "items m' = items m" "heap m' = heap m"
  | (stored) a v where "items m = Some a" "items m' = items m"
      "heap m' = (heap m)[a := AList.update k v (obj (heap m) a)]"
proof (cases "being_fetched m k")
  case True
  from Update_follower [OF True] assms
  have "(items m' = items m \<and> heap m' = heap m)
      \<or> (\<exists>a v. items m = Some a \<and> items m' = items m
              \<and> heap m' = (heap m)[a := AList.update k v (obj (heap m) a)])"
    by (auto split: wait.splits option.splits prod.splits)
  then show ?thesis using error stored by blast
next
  case False
  show ?thesis
  proof (cases "isBeingFetchedMap m = None \<or> isBeingFetchedWG m = None \<or> fetch m = None")
    case True
    from Update_leader_panics [OF False True] assms show ?thesis by simp
  next
    case nonnil: False
    then obtain fl wgs f where t: "isBeingFetchedMap m = Some fl"
      "isBeingFetchedWG m = Some wgs" "fetch m = Some f" by auto
    obtain v err where f: "f (calls m) k = (v, err)" by (cases "f (calls m) k")
    show ?thesis
    proof (cases err)
      case e: None
      show ?thesis
      proof (cases "items m")
        case None
        from Update_leader_nil_items [OF False None t f [unfolded e]] assms show ?thesis by simp
      next
        case (Some a)
        from Update_leader_ok [OF False Some t f [unfolded e]] assms
        show ?thesis by (intro stored [OF Some]) auto
      qed
    next
      case e: (Some e)
      from Update_leader_error [OF False t f [unfolded e]] assms
      show ?thesis by (intro error) auto
    qed
  qed
qed

subsection \<open>Entries of other keys are left alone\<close>

lemma lookup_flag_wg_calls [simp]:
  "items_lookup (m\<lparr>isBeingFetchedMap := x\<rparr>) k = items_lookup m k"
  "items_lookup (m\<lparr>isBeingFetchedWG := y\<rparr>) k = items_lookup m k"
  "items_lookup (m\<lparr>calls := z\<rparr>) k = items_lookup m k"
  by (simp_all add: items_lookup_def split: option.splits)

lemma Get_keeps:
  assumes hit: "items_lookup m K = Some V" and ret: "Get m k = (Returns r, m')"
  shows "items_lookup m' K = Some V"
proof (cases "items_lookup m k")
  case (Some v)
  from Get_hit [OF Some] ret hit show ?thesis by simp
next
  case None
  with hit have ne: "K \<noteq> k" by auto
  from items_lookup_valid [OF hit] obtain a where a: "items m = Some a" by blast
  show ?thesis
  proof (cases "being_fetched m k")
    case True
    from Get_follower [OF a None True] ret have "m' = m" by simp
    with hit show ?thesis by simp
  next
    case False
    show ?thesis
    proof (cases "isBeingFetchedMap m = None \<or> isBeingFetchedWG m = None \<or> fetch m = None")
      case True
      from Get_leader_panics [OF a None False True] ret show ?thesis by simp
    next
      case nonnil: False
      then obtain fl wgs f where t: "isBeingFetchedMap m = Some fl"
        "isBeingFetchedWG m = Some wgs" "fetch m = Some f" by auto
      obtain v err where f: "f (calls m) k = (v, err)" by (cases "f (calls m) k")
      show ?thesis
      proof (cases err)
        case None
        from Get_leader_ok [OF a \<open>items_lookup m k = None\<close> False t f [unfolded None]] ret
        show ?thesis using hit a ne
          by (auto simp: items_lookup_def obj_def update_conv' split: if_splits)
      next
        case (Some e)
        from Get_leader_error [OF a \<open>items_lookup m k = None\<close> False t f [unfolded Some]] ret
        show ?thesis using hit by auto
      qed
    qed
  qed
qed

lemma Update_keeps:
  assumes hit: "items_lookup m K = Some V" and ret: "Update m k = (Returns r, m')"
    and ne: "K \<noteq> k"
  shows "items_lookup m' K = Some V"
proof -
  from items_lookup_valid [OF hit] obtain a where a: "items m = Some a" by blast
  show ?thesis
  proof (cases "being_fetched m k")
    case True
    from Update_follower [OF True] ret a hit ne show ?thesis
      by (auto simp: items_lookup_def obj_def update_conv'
          split: wait.splits option.splits prod.splits if_splits)
  next
    case False
    show ?thesis
    proof (cases "isBeingFetchedMap m = None \<or> isBeingFetchedWG m = None \<or> fetch m = None")
      case True
      from Update_leader_panics [OF False True] ret show ?thesis by simp
    next
      case nonnil: False
      then obtain fl wgs f where t: "isBeingFetchedMap m = Some fl"
        "isBeingFetchedWG m = Some wgs" "fetch m = Some f" by auto
      obtain v err where f: "f (calls m) k = (v, err)" by (cases "f (calls m) k")
      show ?thesis
      proof (cases err)
        case None
        from Update_leader_ok [OF False a t f [unfolded None]] ret
        show ?thesis using hit a ne
          by (auto simp: items_lookup_def obj_def update_conv' split: if_splits)
      next
        case (Some e)
        from Update_leader_error [OF False t f [unfolded Some]] ret
        show ?thesis using hit by auto
      qed
    qed
  qed
qed

subsection \<open>The copy loop of GetAll\<close>

lemma update_fresh: "k \<notin> fst ` set al \<Longrightarrow> AList.update k v al = al @ [(k, v)]"
  by (induction al) auto

lemma fold_update_append:
  "distinct (map fst xs) \<Longrightarrow> fst ` set xs \<inter> fst ` set acc = {} \<Longrightarrow>
   fold (\<lambda>(k, v). AList.update k v) xs acc = acc @ xs"
proof (induction xs arbitrary: acc)
  case Nil
  then show ?case by simp
next
  case (Cons x xs)
  obtain k v where x: "x = (k, v)" by (cases x)
  from Cons.prems x have fresh: "k \<notin> fst ` set acc" by auto
  from Cons.prems x have d: "distinct (map fst xs)" and k: "k \<notin> fst ` set xs" by auto
  from Cons.prems x k have "fst ` set xs \<inter> fst ` set (acc @ [(k, v)]) = {}" by auto
  from Cons.IH [OF d this] show ?case by (simp add: x update_fresh [OF fresh])
qed

lemma fold_map_assign:
  "r < length (heap m) \<Longrightarrow>
   fold (\<lambda>(k, v). map_assign r k v) xs m =
     m\<lparr>heap := (heap m)[r := fold (\<lambda>(k, v). AList.update k v) xs (heap m ! r)]\<rparr>"
proof (induction xs arbitrary: m)
  case Nil
  then show ?case by simp
next
  case (Cons x xs)
  obtain k v where x: "x = (k, v)" by (cases x)
  have "r < length (heap (map_assign r k v m))" using Cons.prems by (simp add: map_assign_def)
  from Cons.IH [OF this] Cons.prems show ?case
    by (simp add: x map_assign_def obj_def)
qed

lemma GetAll_heap:
  "\<exists>c. snd (GetAll m) = m\<lparr>heap := heap m @ [c]\<rparr>"
proof (cases "items m")
  case None
  then have "snd (GetAll m) = m\<lparr>heap := heap m @ [[]]\<rparr>"
    by (simp add: GetAll_def make_map_def)
  then show ?thesis by blast
next
  case (Some a)
  have "length (heap m) < length (heap (m\<lparr>heap := heap m @ [[]]\<rparr>))" by simp
  from fold_map_assign [OF this] Some
  have "snd (GetAll m) =
        m\<lparr>heap := heap m @ [fold (\<lambda>(k, v). AList.update k v)
                                  (obj (heap m @ [[]]) a) []]\<rparr>"
    by (simp add: GetAll_def make_map_def)
  then show ?thesis by blast
qed

lemma GetAll_None: "items m = None \<Longrightarrow> GetAll m = (None, m\<lparr>heap := heap m @ [[]]\<rparr>)"
  by (simp add: GetAll_def make_map_def)

lemma GetAll_Some:
  assumes "items m = Some a" "a < length (heap m)" "distinct (map fst (heap m ! a))"
  shows "GetAll m = (Some (length (heap m)), m\<lparr>heap := heap m @ [heap m ! a]\<rparr>)"
proof -
  have "length (heap m) < length (heap (m\<lparr>heap := heap m @ [[]]\<rparr>))" by simp
  from fold_map_assign [OF this] assms fold_update_append [OF assms(3), of "[]"]
  show ?thesis
    by (simp add: GetAll_def make_map_def obj_def nth_append)
qed

lemma GetAll_keeps:
  assumes "items_lookup m K = Some V"
  shows "items_lookup (snd (GetAll m)) K = Some V"
proof -
  from GetAll_heap obtain c where c: "snd (GetAll m) = m\<lparr>heap := heap m @ [c]\<rparr>" by blast
  from items_lookup_valid [OF assms] obtain a where "items m = Some a" "a < length (heap m)"
    by blast
  with assms show ?thesis
    by (simp add: c items_lookup_def obj_def nth_append)
qed

lemma apply_op_keeps:
  assumes "items_lookup m K = Some V" "apply_op m x = Some m'" "x \<noteq> OpClear" "x \<noteq> OpUpdate K"
  shows "items_lookup m' K = Some V"
proof (cases x)
  case (OpGet k)
  with assms(2) obtain r where "Get m k = (Returns r, m')"
    by (auto split: prod.splits outcome.splits)
  from Get_keeps [OF assms(1) this] show ?thesis .
next
  case OpGetAll
  with assms(2) GetAll_keeps [OF assms(1)] show ?thesis by auto
next
  case OpClear
  with assms(3) show ?thesis by simp
next
  case (OpUpdate k)
  with assms(2) obtain r where "Update m k = (Returns r, m')"
    by (auto split: prod.splits outcome.splits)
  from Update_keeps [OF assms(1) this] OpUpdate assms(4) show ?thesis by auto
qed

lemma run_ops_keeps:
  assumes "items_lookup m K = Some V" "run_ops m xs = Some m'"
    "OpClear \<notin> set xs" "OpUpdate K \<notin> set xs"
  shows "items_lookup m' K = Some V"
  using assms
proof (induction xs arbitrary: m)
  case Nil
  then show ?case by simp
next
  case (Cons x xs)
  from Cons.prems(2) obtain m1 where m1: "apply_op m x = Some m1" and r: "run_ops m1 xs = Some m'"
    by (auto split: option.splits)
  from Cons.prems have "x \<noteq> OpClear" "x \<noteq> OpUpdate K" by auto
  from apply_op_keeps [OF Cons.prems(1) m1 this] have "items_lookup m1 K = Some V" .
  from Cons.IH [OF this r] Cons.prems show ?case by simp
qed

subsection \<open>Well-formedness is kept\<close>

lemma heap_ok_update:
  "heap_ok h \<Longrightarrow> heap_ok (h[a := AList.update k v (obj h a)])"
  by (auto simp: heap_ok_def obj_def list_all_iff distinct_update dest!: set_update_subset_insert [THEN subsetD])

lemma well_formed_assign:
  "well_formed m \<Longrightarrow> well_formed (m\<lparr>heap := (heap m)[a := AList.update k v (obj (heap m) a)]\<rparr>)"
  by (simp add: well_formed_def heap_ok_update split: option.splits)

lemma well_formed_cong: "items m' = items m \<Longrightarrow> heap m' = heap m \<Longrightarrow> well_formed m' = well_formed m"
  by (simp add: well_formed_def split: option.splits)

lemma well_formed_Get:
  assumes "well_formed m" "Get m k = (Returns r, m')"
  shows "well_formed m'"
  using assms(2)
proof (cases rule: Get_Returns_cases)
  case same
  with assms(1) show ?thesis by simp
next
  case (error fl wgs)
  have "well_formed m' = well_formed m" by (rule well_formed_cong) (simp_all add: error)
  with assms(1) show ?thesis by simp
next
  case (stored a fl wgs v)
  have "well_formed m'
      = well_formed (m\<lparr>heap := (heap m)[a := AList.update k v (obj (heap m) a)]\<rparr>)"
    by (rule well_formed_cong) (simp_all add: stored)
  with well_formed_assign [OF assms(1), of a k v] show ?thesis by simp
qed

lemma well_formed_Update:
  assumes "well_formed m" "Update m k = (Returns r, m')"
  shows "well_formed m'"
  using assms(2)
proof (cases rule: Update_Returns_cases)
  case error
  from well_formed_cong [OF error] assms(1) show ?thesis by simp
next
  case (stored a v)
  have "well_formed m' = well_formed (m\<lparr>heap := (heap m)[a := AList.update k v (obj (heap m) a)]\<rparr>)"
    by (rule well_formed_cong) (simp_all add: stored)
  with well_formed_assign [OF assms(1), of a k v] show ?thesis by simp
qed

lemma well_formed_GetAll: "well_formed m \<Longrightarrow> well_formed (snd (GetAll m))"
proof (cases "items m")
  case None
  assume "well_formed m"
  with None show ?thesis by (simp add: GetAll_None well_formed_def heap_ok_def)
next
  case (Some a)
  assume w: "well_formed m"
  with Some have a: "a < length (heap m)" and d: "distinct (map fst (heap m ! a))"
    by (auto simp: well_formed_def heap_ok_def list_all_length)
  from GetAll_Some [OF Some a d] w Some a d show ?thesis
    by (simp add: well_formed_def heap_ok_def)
qed

lemma well_formed_Clear: "heap_ok (heap m) \<Longrightarrow> well_formed (Clear m)"
  by (simp add: Clear_def make_map_def well_formed_def heap_ok_def)

lemma well_formed_apply_op: "well_formed m \<Longrightarrow> apply_op m x = Some m' \<Longrightarrow> well_formed m'"
proof (cases x)
  case (OpGet k)
  assume "well_formed m" "apply_op m x = Some m'"
  with OpGet show ?thesis by (auto split: prod.splits outcome.splits dest: well_formed_Get)
next
  case OpGetAll
  assume "well_formed m" "apply_op m x = Some m'"
  with OpGetAll well_formed_GetAll [of m] show ?thesis by auto
next
  case OpClear
  assume "well_formed m" "apply_op m x = Some m'"
  with OpClear well_formed_Clear [of m] show ?thesis by (auto simp: well_formed_def)
next
  case (OpUpdate k)
  assume "well_formed m" "apply_op m x = Some m'"
  with OpUpdate show ?thesis by (auto split: prod.splits outcome.splits dest: well_formed_Update)
qed

lemma well_formed_run_ops: "well_formed m \<Longrightarrow> run_ops m xs = Some m' \<Longrightarrow> well_formed m'"
  by (induction xs arbitrary: m) (auto split: option.splits dest: well_formed_apply_op)

lemma well_formed_New:
  "New f None h = (Some m, e) \<Longrightarrow> heap_ok h \<Longrightarrow> well_formed m"
  "New f (Some p) h = (Some m, e) \<Longrightarrow> p h = ((a, e'), h1) \<Longrightarrow> heap_ok h1 \<Longrightarrow>
     (case a of None \<Rightarrow> True | Some x \<Rightarrow> x < length h1) \<Longrightarrow> well_formed m"
  by (auto simp: New_def well_formed_def heap_ok_def split: prod.splits if_splits option.splits)

subsection \<open>A goroutine alone does what the call does\<close>

text \<open>
  Run alone to its end, a goroutine that enters \<^verbatim>\<open>Get\<close> (or \<^verbatim>\<open>Update\<close>) ends with the
  result and the state of the definition \<open>Get\<close> (or \<open>Update\<close>) above; where the call
  blocks, the goroutine stands at \<^verbatim>\<open>Wait\<close>.
\<close>

lemma solo_finished [simp]:
  "solo n (Got v e) m = (Got v e, m)"
  "solo n (Updated e) m = (Updated e, m)"
  "solo n (GotAll r) m = (GotAll r, m)"
  "solo n Cleared m = (Cleared, m)"
  "solo n Panicked m = (Panicked, m)"
  by (cases n; simp)+

lemma GetAll_solo: "solo 1 GetAll_108 m = (GotAll (fst (GetAll m)), snd (GetAll m))"
  by (simp add: split_beta)

lemma Clear_solo: "solo 1 Clear_121 m = (Cleared, Clear m)"
  by simp

lemma Get_solo:
  "solo 8 (Get_56 k) m =
     (case Get m k of
        (Returns (v, e), m') \<Rightarrow> (Got v e, m')
      | (Panics, m') \<Rightarrow> (Panicked, m')
      | (Blocks, m') \<Rightarrow> (Get_97 k, m'))"
proof (cases "items m = None \<or> items_lookup m k \<noteq> None")
  case True
  then show ?thesis by (auto simp: eval_nat_numeral Get_def)
next
  case miss: False
  show ?thesis
  proof (cases "being_fetched m k")
    case True
    with miss show ?thesis
      by (cases "wg_Wait m k") (auto simp: eval_nat_numeral Get_def)
  next
    case False
    show ?thesis
    proof (cases "begin_fetch m k")
      case (Inl m1)
      with miss False show ?thesis by (auto simp: eval_nat_numeral Get_def)
    next
      case (Inr m1)
      show ?thesis
      proof (cases "call_fetch m1 k")
        case None
        with miss False Inr show ?thesis
          by (auto simp: eval_nat_numeral Get_def deferred_Done_def split: option.splits)
      next
        case (Some x)
        obtain v err m2 where x: "x = ((v, err), m2)" by (metis prod.exhaust)
        show ?thesis
        proof (cases err)
          case e: (Some e)
          with miss False Inr Some x show ?thesis
            by (auto simp: eval_nat_numeral Get_def deferred_Done_def split: option.splits)
        next
          case None
          show ?thesis
          proof (cases "items_assign m2 k v")
            case a: None
            with miss False Inr Some x None show ?thesis
              by (auto simp: eval_nat_numeral Get_def deferred_Done_def split: option.splits)
          next
            case a: (Some m3)
            show ?thesis
            proof (cases "flag_clear m3 k")
              case c: None
              with miss False Inr Some x None a show ?thesis
                by (auto simp: eval_nat_numeral Get_def deferred_Done_def split: option.splits)
            next
              case c: (Some m4)
              with miss False Inr Some x None a show ?thesis
                by (auto simp: eval_nat_numeral Get_def deferred_Done_def split: option.splits)
            qed
          qed
        qed
      qed
    qed
  qed
qed

lemma Update_solo:
  "solo 7 (Update_131 k) m =
     (case Update m k of
        (Returns e, m') \<Rightarrow> (Updated e, m')
      | (Panics, m') \<Rightarrow> (Panicked, m')
      | (Blocks, m') \<Rightarrow> (Update_162 k, m'))"
proof (cases "being_fetched m k")
  case True
  show ?thesis
  proof (cases "wg_Wait m k")
    case Ready
    show ?thesis
    proof (cases "call_fetch m k")
      case None
      with True Ready show ?thesis by (auto simp: eval_nat_numeral Update_def)
    next
      case (Some x)
      obtain v err m2 where x: "x = ((v, err), m2)" by (metis prod.exhaust)
      with True Ready Some show ?thesis
        by (cases err; cases "items_assign m2 k v") (auto simp: eval_nat_numeral Update_def)
    qed
  next
    case Blocked
    with True show ?thesis by (auto simp: eval_nat_numeral Update_def)
  next
    case NilWG
    with True show ?thesis by (auto simp: eval_nat_numeral Update_def)
  qed
next
  case False
  show ?thesis
  proof (cases "begin_fetch m k")
    case (Inl m1)
    with False show ?thesis by (auto simp: eval_nat_numeral Update_def)
  next
    case (Inr m1)
    show ?thesis
    proof (cases "call_fetch m1 k")
      case None
      with False Inr show ?thesis
        by (auto simp: eval_nat_numeral Update_def deferred_Done_def split: option.splits)
    next
      case (Some x)
      obtain v err m2 where x: "x = ((v, err), m2)" by (metis prod.exhaust)
      show ?thesis
      proof (cases err)
        case e: (Some e)
        with False Inr Some x show ?thesis
          by (auto simp: eval_nat_numeral Update_def deferred_Done_def split: option.splits)
      next
        case None
        show ?thesis
        proof (cases "items_assign m2 k v")
          case a: None
          with False Inr Some x None show ?thesis
            by (auto simp: eval_nat_numeral Update_def deferred_Done_def split: option.splits)
        next
          case a: (Some m3)
          show ?thesis
          proof (cases "flag_clear m3 k")
            case c: None
            with False Inr Some x None a show ?thesis
              by (auto simp: eval_nat_numeral Update_def deferred_Done_def split: option.splits)
          next
            case c: (Some m4)
            with False Inr Some x None a show ?thesis
              by (auto simp: eval_nat_numeral Update_def deferred_Done_def split: option.splits)
          qed
        qed
      qed
    qed
  qed
qed

subsection \<open>Get on a cache that was never initialised\<close>

text \<open>
  C5. On a cache whose \<^verbatim>\<open>items\<close> map is nil (the zero value, not made by \<^verbatim>\<open>New\<close>),
  \<^verbatim>\<open>Get\<close> returns the nil value and \<^verbatim>\<open>ErrNotInitialized\<close> for every key, and leaves
  the state as it was: in particular the fetcher is not called.
\<close>

theorem Get_not_initialized:
  "items m = None \<Longrightarrow> Get m key = (Returns (NilVal, Some ErrNotInitialized), m)"
  by (simp add: Get_def)

theorem Get_not_initialized_witness:
  "items (zero_Cache [] :: nat state) = None
   \<and> Get (zero_Cache [] :: nat state) ''k'' = (Returns (NilVal, Some ErrNotInitialized), zero_Cache [])"
  using Get_not_initialized [of "zero_Cache [] :: nat state" "''k''"]
  by (simp add: zero_Cache_def)

subsection \<open>A stored value is served until it is cleared or updated\<close>

lemma fetched_by_Get_stored:
  assumes "fetched_by_Get m0 K V m"
  shows "items_lookup m K = Some V"
proof -
  from assms have v: "valid_items m0" and g: "Get m0 K = (Returns (V, None), m)"
    and c: "calls m = calls m0 @ [K]" by (simp_all add: fetched_by_Get_def)
  from v obtain a where a: "items m0 = Some a" "a < length (heap m0)"
    by (auto simp: valid_items_def split: option.splits)
  show ?thesis
  proof (cases "items_lookup m0 K")
    case (Some v)
    from Get_hit [OF Some] g c show ?thesis by simp
  next
    case None
    show ?thesis
    proof (cases "being_fetched m0 K")
      case True
      from Get_follower [OF a(1) None True] g c show ?thesis by simp
    next
      case False
      show ?thesis
      proof (cases "isBeingFetchedMap m0 = None \<or> isBeingFetchedWG m0 = None \<or> fetch m0 = None")
        case True
        from Get_leader_panics [OF a(1) None False True] g show ?thesis by simp
      next
        case nonnil: False
        then obtain fl wgs f where t: "isBeingFetchedMap m0 = Some fl"
          "isBeingFetchedWG m0 = Some wgs" "fetch m0 = Some f" by auto
        obtain v err where f: "f (calls m0) K = (v, err)" by (cases "f (calls m0) K")
        show ?thesis
        proof (cases err)
          case None
          from Get_leader_ok [OF a(1) \<open>items_lookup m0 K = None\<close> False t f [unfolded None]] g
          show ?thesis using a
            by (auto simp: items_lookup_def obj_def update_conv')
        next
          case (Some e)
          from Get_leader_error [OF a(1) \<open>items_lookup m0 K = None\<close> False t f [unfolded Some]] g
          show ?thesis by simp
        qed
      qed
    qed
  qed
qed

lemma fetched_by_Update_stored:
  assumes "fetched_by_Update m0 K V m"
  shows "items_lookup m K = Some V"
proof -
  from assms have v: "valid_items m0" and g: "Update m0 K = (Returns None, m)"
    by (simp_all add: fetched_by_Update_def)
  from assms obtain f where f: "fetch m0 = Some f" and V: "fst (f (calls m0) K) = V"
    by (auto simp: fetched_by_Update_def split: option.splits)
  from v obtain a where a: "items m0 = Some a" "a < length (heap m0)"
    by (auto simp: valid_items_def split: option.splits)
  obtain v err where fv: "f (calls m0) K = (v, err)" by (cases "f (calls m0) K")
  with V have vV: "v = V" by simp
  show ?thesis
  proof (cases "being_fetched m0 K")
    case True
    from Update_follower [OF True] g f fv vV a show ?thesis
      by (auto simp: items_lookup_def obj_def update_conv'
          split: wait.splits option.splits prod.splits if_splits)
  next
    case False
    show ?thesis
    proof (cases "isBeingFetchedMap m0 = None \<or> isBeingFetchedWG m0 = None")
      case True
      with Update_leader_panics [OF False, of ] g show ?thesis by auto
    next
      case nonnil: False
      then obtain fl wgs where t: "isBeingFetchedMap m0 = Some fl"
        "isBeingFetchedWG m0 = Some wgs" by auto
      show ?thesis
      proof (cases err)
        case None
        from Update_leader_ok [OF False a(1) t f fv [unfolded None]] g
        show ?thesis using a vV
          by (auto simp: items_lookup_def obj_def update_conv')
      next
        case (Some e)
        from Update_leader_error [OF False t f fv [unfolded Some]] g
        show ?thesis by simp
      qed
    qed
  qed
qed

lemma prewarmed_stored:
  assumes "prewarmed f p h K V m"
  shows "items_lookup m K = Some V"
  using assms
  by (auto simp: prewarmed_def New_def items_lookup_def split: prod.splits option.splits if_splits)

text \<open>
  The same among goroutines: a step of any goroutine that is not about to assign to
  \<^verbatim>\<open>items[K]\<close> or to replace \<^verbatim>\<open>items\<close> keeps the entry of \<open>K\<close>, and a goroutine that
  enters \<^verbatim>\<open>Get(K)\<close> while the entry is there returns it in its first step, the state
  unchanged.
\<close>

lemma begin_fetch_lookup:
  "begin_fetch m k = Inl m1 \<Longrightarrow> items_lookup m1 K = items_lookup m K"
  "begin_fetch m k = Inr m1 \<Longrightarrow> items_lookup m1 K = items_lookup m K"
  by (auto simp: begin_fetch_def Let_def split: option.splits)

lemma call_fetch_lookup:
  "call_fetch m k = Some (r, m2) \<Longrightarrow> items_lookup m2 K = items_lookup m K"
  by (auto simp: call_fetch_def split: option.splits)

lemma flag_clear_lookup:
  "flag_clear m k = Some m' \<Longrightarrow> items_lookup m' K = items_lookup m K"
  by (auto simp: flag_clear_def split: option.splits)

lemma wg_Done_lookup:
  "wg_Done m k = Some m' \<Longrightarrow> items_lookup m' K = items_lookup m K"
  by (auto simp: wg_Done_def split: option.splits if_splits)

lemma deferred_Done_lookup:
  "items_lookup (snd (deferred_Done r m k)) K = items_lookup m K"
  by (auto simp: deferred_Done_def wg_Done_lookup split: option.splits)

lemma items_assign_lookup:
  "items_assign m k v = Some m' \<Longrightarrow> k \<noteq> K \<Longrightarrow> items_lookup m' K = items_lookup m K"
  by (auto simp: items_assign_def map_assign_def items_lookup_def obj_def update_conv'
      split: option.splits)

lemma advance_Get_hit:
  "items_lookup m K = Some V \<Longrightarrow> advance (Get_56 K) m = Some (Got V None, m)"
  by (auto simp: items_lookup_def split: option.splits)

lemma advance_keeps:
  assumes "items_lookup m K = Some V" "\<not> storing K t" "advance t m = Some (t', m')"
  shows "items_lookup m' K = Some V"
proof -
  have "items_lookup m' K = items_lookup m K"
  proof (cases t)
    case (Get_72 k)
    with assms(3) show ?thesis by (auto split: sum.splits simp: begin_fetch_lookup)
  next
    case (Get_84 k)
    with assms(3) show ?thesis
      by (auto split: option.splits simp: call_fetch_lookup deferred_Done_lookup)
  next
    case (Get_89 k v)
    with assms(2,3) show ?thesis
      by (auto split: option.splits simp: items_assign_lookup deferred_Done_lookup)
  next
    case (Get_93 k v)
    with assms(3) show ?thesis
      by (auto split: option.splits simp: flag_clear_lookup deferred_Done_lookup)
  next
    case (Get_return k v e)
    with assms(3) show ?thesis by (auto split: option.splits simp: wg_Done_lookup)
  next
    case (Get_97 k)
    with assms(3) show ?thesis by (auto split: wait.splits)
  next
    case (Update_137 k)
    with assms(3) show ?thesis by (auto split: sum.splits simp: begin_fetch_lookup)
  next
    case (Update_149 k)
    with assms(3) show ?thesis
      by (auto split: option.splits simp: call_fetch_lookup deferred_Done_lookup)
  next
    case (Update_154 k v)
    with assms(2,3) show ?thesis
      by (auto split: option.splits simp: items_assign_lookup deferred_Done_lookup)
  next
    case (Update_158 k)
    with assms(3) show ?thesis
      by (auto split: option.splits simp: flag_clear_lookup deferred_Done_lookup)
  next
    case (Update_return k e)
    with assms(3) show ?thesis by (auto split: option.splits simp: wg_Done_lookup)
  next
    case (Update_162 k)
    with assms(3) show ?thesis by (auto split: wait.splits)
  next
    case (Update_163 k)
    with assms(3) show ?thesis by (auto split: option.splits simp: call_fetch_lookup)
  next
    case (Update_167 k v)
    with assms(2,3) show ?thesis by (auto split: option.splits simp: items_assign_lookup)
  next
    case GetAll_108
    with assms(3) GetAll_keeps [OF assms(1)] assms(1) show ?thesis
      by (auto split: prod.splits)
  next
    case Clear_121
    with assms(2) show ?thesis by simp
  qed (use assms(3) in auto)
  with assms(1) show ?thesis by simp
qed

lemma step_keeps:
  assumes "items_lookup (shared s) K = Some V" "step i s = Some s'"
    "\<not> storing K (threads s ! i)"
  shows "items_lookup (shared s') K = Some V"
  using assms
  by (auto simp: step_def split: if_splits option.splits dest: advance_keeps)

text \<open>
  For calls made one after the other: after a successful fetch for key \<open>K\<close> that
  produced \<open>V\<close> (by a leader \<^verbatim>\<open>Get\<close>, by \<^verbatim>\<open>Update\<close>, or by the prewarm function at
  construction), and after any further calls that return and are neither \<^verbatim>\<open>Clear\<close> nor
  \<^verbatim>\<open>Update(K)\<close>, \<^verbatim>\<open>Get(K)\<close> returns \<open>V\<close> with no error and leaves the whole state, the
  list of fetcher calls included, as it was.
\<close>

lemma hit_after_fetch:
  assumes "fetched_by_Get m0 K V m \<or> fetched_by_Update m0 K V m \<or> prewarmed f p h K V m"
    and "OpClear \<notin> set ops" and "OpUpdate K \<notin> set ops"
    and "run_ops m ops = Some m'"
  shows "Get m' K = (Returns (V, None), m')"
proof -
  from assms(1) have "items_lookup m K = Some V"
    using fetched_by_Get_stored fetched_by_Update_stored prewarmed_stored by blast
  from run_ops_keeps [OF this assms(4) assms(2) assms(3)]
  have "items_lookup m' K = Some V" .
  from Get_hit [OF this] show ?thesis .
qed

lemma hit_after_fetch_example:
  "fetched_by_Get (fresh counting) ''a'' (Val 0) after_a
   \<and> OpClear \<notin> set [OpGet ''b'', OpGetAll, OpUpdate ''b'', OpGet ''a'']
   \<and> OpUpdate ''a'' \<notin> set [OpGet ''b'', OpGetAll, OpUpdate ''b'', OpGet ''a'']
   \<and> run_ops after_a [OpGet ''b'', OpGetAll, OpUpdate ''b'', OpGet ''a''] = Some after_a_b
   \<and> Get after_a_b ''a'' = (Returns (Val 0, None), after_a_b)
   \<and> prewarmed (Some counting) preWarm12 [] ''2'' (Val 12) warm
   \<and> run_ops warm [] = Some warm
   \<and> Get warm ''2'' = (Returns (Val 12, None), warm)"
proof -
  have f: "fetched_by_Get (fresh counting) ''a'' (Val 0) after_a"
    by (simp add: fetched_by_Get_def valid_items_def fresh_def after_a_def counting_def
          Get_def step_defs)
  have c: "OpClear \<notin> set [OpGet ''b'', OpGetAll, OpUpdate ''b'', OpGet ''a'']" by simp
  have u: "OpUpdate ''a'' \<notin> set [OpGet ''b'', OpGetAll, OpUpdate ''b'', OpGet ''a'']" by simp
  have r: "run_ops after_a [OpGet ''b'', OpGetAll, OpUpdate ''b'', OpGet ''a''] = Some after_a_b"
    by (simp add: after_a_def after_a_b_def counting_def Get_def GetAll_def Update_def step_defs)
  have p: "prewarmed (Some counting) preWarm12 [] ''2'' (Val 12) warm"
    by (simp add: prewarmed_def New_def preWarm12_def warm_def obj_def)
  have r0: "run_ops warm [] = Some warm" by simp
  from hit_after_fetch [of "fresh counting" "''a''" "Val 0" after_a None preWarmNil "[]", OF _ c u r]
    hit_after_fetch [of warm "''2''" "Val 12" warm "Some counting" preWarm12 "[]" "[]" warm]
    f c u r p r0
  show ?thesis by simp
qed

text \<open>
  C4 (the code departs from it). Among goroutines the race of C3 breaks it. Four
  goroutines call \<^verbatim>\<open>Get("k")\<close> on the cache \<^verbatim>\<open>New(counting, nil)\<close>; nobody calls \<^verbatim>\<open>Clear\<close>
  or \<^verbatim>\<open>Update\<close>. The first two both become leaders and both fetch. The first stores its
  value 0 and returns it: a successful fetch of \<^verbatim>\<open>"k"\<close> has produced 0, and the third
  goroutine, which starts now, returns 0 without fetching. Then the second leader stores
  its value 1 over it, and the fourth goroutine, which starts after that, returns 1.
\<close>

theorem second_leader_replaces_value:
  "run [0, 0, 1, 1, 0, 1, 0, 1]
        \<lparr>shared = fresh counting,
         threads = [Get_56 ''k'', Get_56 ''k'', Get_56 ''k'', Get_56 ''k'']\<rparr>
      = Some \<lparr>shared = two_fetching,
               threads = [Get_fetching ''k'' (Val 0) None, Get_fetching ''k'' (Val 1) None,
                          Get_56 ''k'', Get_56 ''k'']\<rparr>
   \<and> run [0, 0, 0, 0, 2]
        \<lparr>shared = two_fetching,
         threads = [Get_fetching ''k'' (Val 0) None, Get_fetching ''k'' (Val 1) None,
                    Get_56 ''k'', Get_56 ''k'']\<rparr>
      = Some \<lparr>shared = first_stored,
               threads = [Got (Val 0) None, Get_fetching ''k'' (Val 1) None,
                          Got (Val 0) None, Get_56 ''k'']\<rparr>
   \<and> items_lookup first_stored ''k'' = Some (Val 0)
   \<and> run [1, 1, 1, 1, 3]
        \<lparr>shared = first_stored,
         threads = [Got (Val 0) None, Get_fetching ''k'' (Val 1) None,
                    Got (Val 0) None, Get_56 ''k'']\<rparr>
      = Some \<lparr>shared = two_fetched,
               threads = [Got (Val 0) None, Got (Val 1) None,
                          Got (Val 0) None, Got (Val 1) None]\<rparr>
   \<and> Get two_fetched ''k'' = (Returns (Val 1, None), two_fetched)"
  by (simp add: fresh_def counting_def two_fetching_def first_stored_def two_fetched_def
        Get_def step_def step_defs)

subsection \<open>A failed fetch\<close>

text \<open>
  What a leader \<^verbatim>\<open>Get\<close> whose fetch fails leaves behind, in general: the error is
  returned as the fetcher gave it, the key stays out of \<^verbatim>\<open>items\<close>, the fetcher has been
  called once, and the flag of the key is still set, so that the next \<^verbatim>\<open>Get\<close> of the
  key takes the follower branch and calls no fetcher.
\<close>

lemma Get_after_leader_error:
  assumes "items m = Some a" "items_lookup m k = None" "\<not> being_fetched m k"
    "isBeingFetchedMap m = Some fl" "isBeingFetchedWG m = Some wgs"
    "fetch m = Some f" "f (calls m) k = (v, Some e)" "Get m k = (r, m')"
  shows "r = Returns (v, Some e) \<and> items_lookup m' k = None \<and> being_fetched m' k
         \<and> calls m' = calls m @ [k]
         \<and> Get m' k = (if counter wgs k = 0 then Returns (NilVal, None) else Blocks, m')"
proof -
  from Get_leader_error [OF assms(1-7)] assms(8)
  have r: "r = Returns (v, Some e)"
    and m': "m' = m\<lparr>isBeingFetchedMap := Some (AList.update k True fl),
       isBeingFetchedWG := Some (AList.update k (counter wgs k) wgs),
       calls := calls m @ [k]\<rparr>" by simp_all
  from m' assms(2) have l: "items_lookup m' k = None" by simp
  from m' have b: "being_fetched m' k" by (simp add: being_fetched_def update_conv')
  from m' assms(1) have i: "items m' = Some a" by simp
  from m' have w: "wg_Wait m' k = (if counter wgs k = 0 then Ready else Blocked)"
    by (simp add: wg_Wait_def update_conv')
  from Get_follower [OF i l b] w r l b m' show ?thesis by simp
qed

text \<open>
  C1 (the code departs from it). A fetcher that fails for \<^verbatim>\<open>"k"\<close>, on the cache
  \<^verbatim>\<open>New(flaky, nil)\<close>. Alone, \<^verbatim>\<open>Get("k")\<close> returns the error; afterwards the wait group
  of the key is back at zero (\<^verbatim>\<open>Wait\<close> would pass) but the in-flight flag of the key
  is still set: line 86 returns before line 94. With a second goroutine that entered
  the follower branch during the fetch: it cannot step while the fetch runs, it is
  released when the leader returns, and the flag is still set at the end.
\<close>

theorem Get_failed_fetch_keeps_flag:
  "New (Some flaky) None [] = (Some (fresh flaky), None)
   \<and> Get (fresh flaky) ''k'' = (Returns (NilVal, Some (ErrOther ''boom'')), failed_k)
   \<and> being_fetched failed_k ''k''
   \<and> wg_Wait failed_k ''k'' = Ready
   \<and> run [0, 0, 0, 0, 1, 1]
        \<lparr>shared = fresh flaky, threads = [Get_56 ''k'', Get_56 ''k'']\<rparr>
      = Some \<lparr>shared = failing,
               threads = [Get_fetching ''k'' NilVal (Some (ErrOther ''boom'')), Get_97 ''k'']\<rparr>
   \<and> step 1 \<lparr>shared = failing,
               threads = [Get_fetching ''k'' NilVal (Some (ErrOther ''boom'')), Get_97 ''k'']\<rparr>
      = None
   \<and> run [0, 0, 1, 1]
        \<lparr>shared = failing,
         threads = [Get_fetching ''k'' NilVal (Some (ErrOther ''boom'')), Get_97 ''k'']\<rparr>
      = Some \<lparr>shared = failed_k,
               threads = [Got NilVal (Some (ErrOther ''boom'')), Got NilVal None]\<rparr>"
  by (simp add: New_def fresh_def flaky_def failed_k_def failing_def Get_def step_def step_defs)

text \<open>
  C2 (the code departs from it). On the same cache the first \<^verbatim>\<open>Get("k")\<close> returns the
  fetcher's error as it is and leaves \<^verbatim>\<open>"k"\<close> out of \<^verbatim>\<open>items\<close>. The fetcher would now
  succeed, but the second \<^verbatim>\<open>Get("k")\<close> does not call it: it returns the nil value and no
  error, and changes nothing.
\<close>

theorem Get_after_failed_fetch:
  "Get (fresh flaky) ''k'' = (Returns (NilVal, Some (ErrOther ''boom'')), failed_k)
   \<and> items_lookup failed_k ''k'' = None
   \<and> flaky (calls failed_k) ''k'' = (Val 1, None)
   \<and> Get failed_k ''k'' = (Returns (NilVal, None), failed_k)"
  by (simp add: fresh_def flaky_def failed_k_def Get_def step_defs)

subsection \<open>Two fetches of one key at the same time\<close>

text \<open>
  C3 (the code departs from it). Two goroutines call \<^verbatim>\<open>Get("k")\<close> on the cache
  \<^verbatim>\<open>New(counting, nil)\<close>. Each reads the flag of \<^verbatim>\<open>"k"\<close> (lines 67 to 69) before the
  other sets it (lines 72 to 80): both become leaders, the fetcher is called twice for
  \<^verbatim>\<open>"k"\<close>, both calls are under way at the same time, and the two calls of \<^verbatim>\<open>Get\<close>
  return different values, each with no error.
\<close>

theorem two_Gets_two_fetches:
  "New (Some counting) None [] = (Some (fresh counting), None)
   \<and> run [0, 0, 1, 1, 0, 1, 0, 1]
        \<lparr>shared = fresh counting, threads = [Get_56 ''k'', Get_56 ''k'']\<rparr>
      = Some \<lparr>shared = two_fetching,
               threads = [Get_fetching ''k'' (Val 0) None, Get_fetching ''k'' (Val 1) None]\<rparr>
   \<and> length (filter (fetching ''k'')
         [Get_fetching ''k'' (Val 0) None, Get_fetching ''k'' (Val 1) None :: nat thread]) = 2
   \<and> run [0, 0, 0, 0, 1, 1, 1, 1]
        \<lparr>shared = two_fetching,
         threads = [Get_fetching ''k'' (Val 0) None, Get_fetching ''k'' (Val 1) None]\<rparr>
      = Some \<lparr>shared = two_fetched, threads = [Got (Val 0) None, Got (Val 1) None]\<rparr>
   \<and> calls two_fetched = [''k'', ''k'']"
  by (simp add: New_def fresh_def counting_def two_fetching_def two_fetched_def step_def step_defs)

text \<open>
  C8 (the code departs from it). \<^verbatim>\<open>Update\<close> running next to \<^verbatim>\<open>Get\<close>: first, \<^verbatim>\<open>Update("k")\<close>
  reads the flag before a \<^verbatim>\<open>Get("k")\<close> sets it, and both fetch at once. Second, two calls
  of \<^verbatim>\<open>Update("k")\<close> find a fetch in flight and wait; once it is over both pass \<^verbatim>\<open>Wait\<close>
  and both fetch at once, with the flag of the key down, since the fetch of line 163 is
  not entered in the tracker.
\<close>

theorem Update_second_fetch:
  "run [0, 0, 1, 0, 0, 1, 1]
        \<lparr>shared = fresh counting, threads = [Get_56 ''k'', Update_131 ''k'']\<rparr>
      = Some \<lparr>shared = two_fetching,
               threads = [Get_fetching ''k'' (Val 0) None, Update_fetching ''k'' (Val 1) None]\<rparr>
   \<and> length (filter (fetching ''k'')
         [Get_fetching ''k'' (Val 0) None, Update_fetching ''k'' (Val 1) None :: nat thread]) = 2
   \<and> run [0, 0, 0, 0, 1, 2]
        \<lparr>shared = fresh counting, threads = [Get_56 ''k'', Update_131 ''k'', Update_131 ''k'']\<rparr>
      = Some \<lparr>shared = one_fetching,
               threads = [Get_fetching ''k'' (Val 0) None, Update_162 ''k'', Update_162 ''k'']\<rparr>
   \<and> run [0, 0, 0, 0, 1, 2, 1, 2]
        \<lparr>shared = one_fetching,
         threads = [Get_fetching ''k'' (Val 0) None, Update_162 ''k'', Update_162 ''k'']\<rparr>
      = Some \<lparr>shared = three_fetched,
               threads = [Got (Val 0) None, Update_fetching_163 ''k'' (Val 1) None,
                          Update_fetching_163 ''k'' (Val 2) None]\<rparr>
   \<and> length (filter (fetching ''k'')
         [Got (Val 0) None, Update_fetching_163 ''k'' (Val 1) None,
          Update_fetching_163 ''k'' (Val 2) None :: nat thread]) = 2
   \<and> \<not> being_fetched three_fetched ''k''"
  by (simp add: fresh_def counting_def two_fetching_def one_fetching_def three_fetched_def
        step_def step_defs)

subsection \<open>Clear\<close>

text \<open>After \<^verbatim>\<open>Clear\<close>, of either revision, \<^verbatim>\<open>GetAll\<close> returns a new, empty map.\<close>

lemma GetAll_after_Clear:
  "GetAll (Clear m) = (Some (Suc (length (heap m))), (Clear m)\<lparr>heap := heap m @ [[], []]\<rparr>)"
proof -
  have "GetAll (Clear m) = (Some (length (heap (Clear m))),
          (Clear m)\<lparr>heap := heap (Clear m) @ [heap (Clear m) ! length (heap m)]\<rparr>)"
    by (rule GetAll_Some) (simp_all add: Clear_def make_map_def)
  then show ?thesis by (simp add: Clear_def make_map_def)
qed

lemma Clear_240_initialized:
  "items m \<noteq> None \<Longrightarrow> Clear_240 m = (None, Clear m)"
  by (simp add: Clear_240_def Clear_def split: prod.splits)

lemma Clear_240_not_initialized:
  "items m = None \<Longrightarrow> Clear_240 m = (Some ErrNotInitialized, m)"
  by (simp add: Clear_240_def)

text \<open>
  C6 (the code departs from it). On the zero value \<^verbatim>\<open>Cache{}\<close>, \<^verbatim>\<open>Clear\<close> of lines 121 to
  126 reports nothing and installs an empty map, after which \<^verbatim>\<open>Get\<close> no longer returns
  \<^verbatim>\<open>ErrNotInitialized\<close> but panics on the nil flag map; \<^verbatim>\<open>Clear\<close> of lines 240 to 248
  returns \<^verbatim>\<open>ErrNotInitialized\<close> and changes nothing.
\<close>

theorem Clear_zero_Cache:
  "Clear (zero_Cache [] :: nat state) = (zero_Cache [[]])\<lparr>items := Some 0\<rparr>
   \<and> fst (Get (Clear (zero_Cache [] :: nat state)) ''k'') = Panics
   \<and> Clear_240 (zero_Cache [] :: nat state) = (Some ErrNotInitialized, zero_Cache [])"
  by (simp add: Clear_def Clear_240_def zero_Cache_def Get_def step_defs)

subsection \<open>GetAll\<close>

text \<open>In a well-formed state the copy is exact: a new object with the entries of \<^verbatim>\<open>items\<close>.\<close>

lemma GetAll_well_formed:
  assumes "well_formed m" "items m = Some a"
  shows "GetAll m = (Some (length (heap m)), m\<lparr>heap := heap m @ [heap m ! a]\<rparr>)"
proof -
  from assms have "a < length (heap m)" by (simp add: well_formed_def)
  moreover from this assms have "distinct (map fst (heap m ! a))"
    by (simp add: well_formed_def heap_ok_def list_all_length)
  ultimately show ?thesis using assms(2) by (intro GetAll_Some)
qed

text \<open>
  C7. On a cache whose \<^verbatim>\<open>items\<close> names a map object, \<^verbatim>\<open>GetAll\<close> returns the address of a
  new object, one that was not in the heap before, holding the entries of \<^verbatim>\<open>items\<close>;
  nothing else changes. An assignment into the returned map afterwards leaves every
  lookup in the cache as it was; an assignment into \<^verbatim>\<open>items\<close>, or \<^verbatim>\<open>Clear\<close>, leaves the
  returned map as it was. On a cache whose \<^verbatim>\<open>items\<close> is nil, \<^verbatim>\<open>GetAll\<close> returns nil.
\<close>

theorem GetAll_shallow_copy:
  "(items m = Some a \<and> a < length (heap m) \<and> distinct (map fst (heap m ! a)) \<longrightarrow>
      GetAll m = (Some (length (heap m)), m\<lparr>heap := heap m @ [heap m ! a]\<rparr>)
      \<and> items_lookup (map_assign (length (heap m)) k v (snd (GetAll m))) k' = items_lookup m k'
      \<and> obj (heap (map_assign a k v (snd (GetAll m)))) (length (heap m)) = heap m ! a
      \<and> obj (heap (Clear (snd (GetAll m)))) (length (heap m)) = heap m ! a)
   \<and> (items m = None \<longrightarrow> fst (GetAll m) = None)"
proof (intro conjI impI)
  assume "items m = None"
  then show "fst (GetAll m) = None" by (simp add: GetAll_None)
next
  assume a: "items m = Some a \<and> a < length (heap m) \<and> distinct (map fst (heap m ! a))"
  then have i: "items m = Some a" and v: "a < length (heap m)"
    and d: "distinct (map fst (heap m ! a))" by simp_all
  from GetAll_Some [OF i v d]
  show g: "GetAll m = (Some (length (heap m)), m\<lparr>heap := heap m @ [heap m ! a]\<rparr>)" .
  from i v show "items_lookup (map_assign (length (heap m)) k v (snd (GetAll m))) k'
        = items_lookup m k'"
    by (simp add: g items_lookup_def map_assign_def obj_def nth_append)
  from v show "obj (heap (map_assign a k v (snd (GetAll m)))) (length (heap m)) = heap m ! a"
    by (simp add: g map_assign_def obj_def nth_append)
  show "obj (heap (Clear (snd (GetAll m)))) (length (heap m)) = heap m ! a"
    by (simp add: g Clear_def make_map_def obj_def nth_append)
qed

theorem GetAll_shallow_copy_witness:
  "items after_a = Some 0 \<and> 0 < length (heap after_a) \<and> distinct (map fst (heap after_a ! 0))
   \<and> GetAll after_a = (Some 1, after_a\<lparr>heap := [[(''a'', Val 0)], [(''a'', Val 0)]]\<rparr>)
   \<and> items_lookup (map_assign 1 ''a'' (Val 7) (snd (GetAll after_a))) ''a'' = Some (Val 0)
   \<and> obj (heap (map_assign 0 ''a'' (Val 7) (snd (GetAll after_a)))) 1 = [(''a'', Val 0)]
   \<and> obj (heap (Clear (snd (GetAll after_a)))) 1 = [(''a'', Val 0)]
   \<and> items (zero_Cache [] :: nat state) = None
   \<and> fst (GetAll (zero_Cache [] :: nat state)) = None"
proof -
  have h: "items after_a = Some 0 \<and> 0 < length (heap after_a)
      \<and> distinct (map fst (heap after_a ! 0))"
    by (simp add: after_a_def)
  have z: "items (zero_Cache [] :: nat state) = None" by (simp add: zero_Cache_def)
  have l: "length (heap after_a) = 1" "heap after_a = [[(''a'', Val 0)]]"
     "items_lookup after_a ''a'' = Some (Val 0)"
    by (simp_all add: after_a_def items_lookup_def obj_def)
  from GetAll_shallow_copy [where m = after_a and a = 0 and k = "''a''" and v = "Val 7"
      and k' = "''a''"] h
  have 1: "GetAll after_a = (Some (length (heap after_a)),
              after_a\<lparr>heap := heap after_a @ [heap after_a ! 0]\<rparr>)
      \<and> items_lookup (map_assign (length (heap after_a)) ''a'' (Val 7) (snd (GetAll after_a))) ''a''
          = items_lookup after_a ''a''
      \<and> obj (heap (map_assign 0 ''a'' (Val 7) (snd (GetAll after_a)))) (length (heap after_a))
          = heap after_a ! 0
      \<and> obj (heap (Clear (snd (GetAll after_a)))) (length (heap after_a)) = heap after_a ! 0"
    by blast
  from GetAll_shallow_copy [where m = "zero_Cache [] :: nat state"] z
  have 2: "fst (GetAll (zero_Cache [] :: nat state)) = None" by blast
  from 1 have a: "GetAll after_a = (Some 1, after_a\<lparr>heap := [[(''a'', Val 0)], [(''a'', Val 0)]]\<rparr>)"
    by (simp add: l)
  from 1 have "items_lookup (map_assign (length (heap after_a)) ''a'' (Val 7)
          (snd (GetAll after_a))) ''a'' = items_lookup after_a ''a''" by blast
  then have b: "items_lookup (map_assign 1 ''a'' (Val 7) (snd (GetAll after_a))) ''a''
      = Some (Val 0)"
    by (simp add: l)
  from 1 have "obj (heap (map_assign 0 ''a'' (Val 7) (snd (GetAll after_a))))
      (length (heap after_a)) = heap after_a ! 0" by blast
  then have c: "obj (heap (map_assign 0 ''a'' (Val 7) (snd (GetAll after_a)))) 1
      = [(''a'', Val 0)]"
    by (simp add: l)
  from 1 have "obj (heap (Clear (snd (GetAll after_a)))) (length (heap after_a))
      = heap after_a ! 0" by blast
  then have d: "obj (heap (Clear (snd (GetAll after_a)))) 1 = [(''a'', Val 0)]"
    by (simp add: l)
  from h z a b c d 2 show ?thesis by blast
qed

subsection \<open>A prewarm function that returns a nil map\<close>

lemma run_ops_not_initialized:
  assumes "items m = None" "OpClear \<notin> set xs" "run_ops m xs = Some m'"
  shows "items m' = None"
  using assms
proof (induction xs arbitrary: m)
  case Nil
  then show ?case by simp
next
  case (Cons x xs)
  from Cons.prems(3) obtain m1 where a: "apply_op m x = Some m1" and r: "run_ops m1 xs = Some m'"
    by (auto split: option.splits)
  have "items m1 = None"
  proof (cases x)
    case (OpGet k)
    with a Cons.prems(1) show ?thesis by (simp add: Get_not_initialized)
  next
    case OpGetAll
    with a Cons.prems(1) show ?thesis by (auto simp: GetAll_None)
  next
    case OpClear
    with Cons.prems(2) show ?thesis by simp
  next
    case (OpUpdate k)
    with a obtain e where u: "Update m k = (Returns e, m1)"
      by (auto split: prod.splits outcome.splits)
    from u Cons.prems(1) show ?thesis by (cases rule: Update_Returns_cases) simp_all
  qed
  from Cons.IH [OF this _ r] Cons.prems(2) show ?case by simp
qed

text \<open>
  C9, as the claim has it, fails once \<^verbatim>\<open>Clear\<close> is called: on the cache that \<^verbatim>\<open>New\<close>
  returns for a prewarm function giving a nil map and a nil error, \<^verbatim>\<open>Clear\<close> (lines 121 to
  126) installs a map, and then \<^verbatim>\<open>Get\<close> fetches and returns a value with no error and
  \<^verbatim>\<open>GetAll\<close> returns a map.
\<close>

theorem New_nil_prewarm_then_Clear:
  "New (Some counting) (Some preWarmNil) [] = (Some (nilwarm counting), None)
   \<and> items (nilwarm counting) = None
   \<and> fst (Get (Clear (nilwarm counting)) ''k'') = Returns (Val 0, None)
   \<and> fst (GetAll (Clear (nilwarm counting))) = Some 1"
  by (simp add: New_def preWarmNil_def nilwarm_def counting_def Clear_def Get_def GetAll_def
        step_defs)

text \<open>
  C9, amended. When the prewarm function returns a nil map and a nil error, \<^verbatim>\<open>New\<close>
  returns a cache and no error; its \<^verbatim>\<open>items\<close> is nil; and on that cache, at once or
  after any further calls that have returned, \<^verbatim>\<open>Clear\<close> not among them, \<^verbatim>\<open>Get\<close> returns
  \<^verbatim>\<open>ErrNotInitialized\<close> for every key and \<^verbatim>\<open>GetAll\<close> returns nil.
\<close>

theorem New_nil_prewarm:
  assumes "p h = ((None, None), h1)" and "OpClear \<notin> set xs"
  shows "\<exists>m. New f (Some p) h = (Some m, None) \<and> items m = None
           \<and> (\<forall>m'. run_ops m xs = Some m' \<longrightarrow>
                 Get m' key = (Returns (NilVal, Some ErrNotInitialized), m')
                 \<and> fst (GetAll m') = None)"
proof -
  let ?m = "\<lparr>items = None, fetch = f, isBeingFetchedMap = Some [], isBeingFetchedWG = Some [],
             preWarmInit = Some p, heap = h1, calls = []\<rparr>"
  from assms(1) have n: "New f (Some p) h = (Some ?m, None)" by (simp add: New_def)
  have i: "items ?m = None" by simp
  have "Get m' key = (Returns (NilVal, Some ErrNotInitialized), m') \<and> fst (GetAll m') = None"
    if "run_ops ?m xs = Some m'" for m'
  proof -
    from run_ops_not_initialized [OF i assms(2) that] have "items m' = None" .
    then show ?thesis by (simp add: Get_def GetAll_None)
  qed
  with n i show ?thesis by blast
qed

theorem New_nil_prewarm_witness:
  "preWarmNil [] = ((None, None), [])
   \<and> OpClear \<notin> set [OpGet ''k'', OpGetAll, OpUpdate ''k'', OpGet ''j'']
   \<and> New (Some flaky) (Some preWarmNil) [] = (Some (nilwarm flaky), None)
   \<and> items (nilwarm flaky) = None
   \<and> run_ops (nilwarm flaky) [OpGet ''k'', OpGetAll, OpUpdate ''k'', OpGet ''j'']
       = Some ((nilwarm flaky)\<lparr>isBeingFetchedMap := Some [(''k'', True)],
                 isBeingFetchedWG := Some [(''k'', 0)], heap := [[]], calls := [''k'']\<rparr>)
   \<and> Get ((nilwarm flaky)\<lparr>isBeingFetchedMap := Some [(''k'', True)],
                 isBeingFetchedWG := Some [(''k'', 0)], heap := [[]], calls := [''k'']\<rparr>) ''k''
       = (Returns (NilVal, Some ErrNotInitialized),
          (nilwarm flaky)\<lparr>isBeingFetchedMap := Some [(''k'', True)],
                 isBeingFetchedWG := Some [(''k'', 0)], heap := [[]], calls := [''k'']\<rparr>)
   \<and> fst (GetAll ((nilwarm flaky)\<lparr>isBeingFetchedMap := Some [(''k'', True)],
                 isBeingFetchedWG := Some [(''k'', 0)], heap := [[]], calls := [''k'']\<rparr>)) = None"
proof -
  let ?m' = "(nilwarm flaky)\<lparr>isBeingFetchedMap := Some [(''k'', True)],
                 isBeingFetchedWG := Some [(''k'', 0)], heap := [[]], calls := [''k'']\<rparr>"
  have p: "preWarmNil [] = ((None, None), [])" by (simp add: preWarmNil_def)
  have c: "OpClear \<notin> set [OpGet ''k'', OpGetAll, OpUpdate ''k'', OpGet ''j'']" by simp
  have n: "New (Some flaky) (Some preWarmNil) [] = (Some (nilwarm flaky), None)"
    by (simp add: New_def preWarmNil_def nilwarm_def)
  have i: "items (nilwarm flaky) = None" by (simp add: nilwarm_def)
  have r: "run_ops (nilwarm flaky) [OpGet ''k'', OpGetAll, OpUpdate ''k'', OpGet ''j''] = Some ?m'"
    by (simp add: nilwarm_def flaky_def Get_def GetAll_def Update_def step_defs)
  from New_nil_prewarm [of preWarmNil "[]" "[]" "[OpGet ''k'', OpGetAll, OpUpdate ''k'', OpGet ''j'']"
      "Some flaky" "''k''", OF p c] n r
  have "Get ?m' ''k'' = (Returns (NilVal, Some ErrNotInitialized), ?m')
      \<and> fst (GetAll ?m') = None"
    by auto
  with p c n i r show ?thesis by blast
qed

subsection \<open>Update on a cache that was never initialised\<close>

text \<open>
  C10, as the claim has it, fails on the zero value \<^verbatim>\<open>Cache{}\<close>: there the flag map is
  nil too, \<^verbatim>\<open>Update\<close> panics at line 138, on the assignment into it, and the fetcher
  (itself nil) is never called.
\<close>

theorem Update_zero_Cache:
  "Update (zero_Cache [] :: nat state) ''k'' = (Panics, zero_Cache [])
   \<and> calls (snd (Update (zero_Cache [] :: nat state) ''k'')) = []"
  by (simp add: Update_no_flag_map zero_Cache_def)

text \<open>
  C10, amended. \<^verbatim>\<open>Update\<close> makes no check of \<^verbatim>\<open>items\<close>. With a nil flag map, as in the
  zero value, it panics before anything else happens. With \<^verbatim>\<open>items\<close> nil but the two
  tracker maps allocated (what \<^verbatim>\<open>New\<close> leaves after a prewarm function that returned a
  nil map), no fetch of the key in flight, and a fetcher that succeeds, it calls the
  fetcher and then panics on the assignment into the nil \<^verbatim>\<open>items\<close>. Whatever the
  state, an error that \<^verbatim>\<open>Update\<close> returns is the one the fetcher returned, never one of
  its own.
\<close>

theorem Update_nil_items:
  "(isBeingFetchedMap m = None \<longrightarrow> Update m key = (Panics, m))
   \<and> (items m = None \<and> isBeingFetchedMap m = Some fl \<and> isBeingFetchedWG m = Some wgs
        \<and> \<not> being_fetched m key \<and> fetch m = Some f \<and> f (calls m) key = (v, None)
      \<longrightarrow> fst (Update m key) = Panics \<and> calls (snd (Update m key)) = calls m @ [key])
   \<and> (Update m key = (Returns r, m')
      \<longrightarrow> (\<exists>f v. fetch m = Some f \<and> f (calls m) key = (v, r)))"
proof (intro conjI impI)
  assume "isBeingFetchedMap m = None"
  then show "Update m key = (Panics, m)" by (rule Update_no_flag_map)
next
  assume a: "items m = None \<and> isBeingFetchedMap m = Some fl \<and> isBeingFetchedWG m = Some wgs
        \<and> \<not> being_fetched m key \<and> fetch m = Some f \<and> f (calls m) key = (v, None)"
  then have a': "\<not> being_fetched m key" "items m = None" "isBeingFetchedMap m = Some fl"
    "isBeingFetchedWG m = Some wgs" "fetch m = Some f" "f (calls m) key = (v, None)"
    by simp_all
  have "Update m key =
    (Panics,
     m\<lparr>isBeingFetchedMap := Some (AList.update key True fl),
       isBeingFetchedWG := Some (AList.update key (counter wgs key) wgs),
       calls := calls m @ [key]\<rparr>)"
    by (rule Update_leader_nil_items [OF a'])
  then show "fst (Update m key) = Panics" "calls (snd (Update m key)) = calls m @ [key]"
    by simp_all
next
  assume ret: "Update m key = (Returns r, m')"
  show "\<exists>f v. fetch m = Some f \<and> f (calls m) key = (v, r)"
  proof (cases "being_fetched m key")
    case True
    from Update_follower [OF True] ret show ?thesis
      by (auto split: wait.splits option.splits prod.splits)
  next
    case False
    show ?thesis
    proof (cases "isBeingFetchedMap m = None \<or> isBeingFetchedWG m = None \<or> fetch m = None")
      case True
      from Update_leader_panics [OF False True] ret show ?thesis by simp
    next
      case nonnil: False
      then obtain fl wgs f where t: "isBeingFetchedMap m = Some fl"
        "isBeingFetchedWG m = Some wgs" "fetch m = Some f" by auto
      obtain v err where f: "f (calls m) key = (v, err)" by (cases "f (calls m) key")
      show ?thesis
      proof (cases err)
        case None
        show ?thesis
        proof (cases "items m")
          case inone: None
          from Update_leader_nil_items [OF False inone t f [unfolded None]] ret
          show ?thesis by simp
        next
          case (Some a)
          from Update_leader_ok [OF False Some t f [unfolded None]] ret t f None
          show ?thesis by auto
        qed
      next
        case (Some e)
        from Update_leader_error [OF False t f [unfolded Some]] ret t f Some
        show ?thesis by auto
      qed
    qed
  qed
qed

theorem Update_nil_items_witness:
  "isBeingFetchedMap (zero_Cache [] :: nat state) = None
   \<and> Update (zero_Cache [] :: nat state) ''k'' = (Panics, zero_Cache [])
   \<and> New (Some counting) (Some preWarmNil) [] = (Some (nilwarm counting), None)
   \<and> items (nilwarm counting) = None
   \<and> isBeingFetchedMap (nilwarm counting) = Some []
   \<and> isBeingFetchedWG (nilwarm counting) = Some []
   \<and> \<not> being_fetched (nilwarm counting) ''k''
   \<and> fetch (nilwarm counting) = Some counting
   \<and> counting (calls (nilwarm counting)) ''k'' = (Val 0, None)
   \<and> fst (Update (nilwarm counting) ''k'') = Panics
   \<and> calls (snd (Update (nilwarm counting) ''k'')) = [''k'']
   \<and> Update (nilwarm flaky) ''k''
       = (Returns (Some (ErrOther ''boom'')),
          (nilwarm flaky)\<lparr>isBeingFetchedMap := Some [(''k'', True)],
                          isBeingFetchedWG := Some [(''k'', 0)], calls := [''k'']\<rparr>)
   \<and> (\<exists>f v. fetch (nilwarm flaky) = Some f
           \<and> f (calls (nilwarm flaky)) ''k'' = (v, Some (ErrOther ''boom'')))"
proof -
  have z: "isBeingFetchedMap (zero_Cache [] :: nat state) = None" by (simp add: zero_Cache_def)
  have n: "New (Some counting) (Some preWarmNil) [] = (Some (nilwarm counting), None)"
    by (simp add: New_def preWarmNil_def nilwarm_def)
  have h: "items (nilwarm counting) = None \<and> isBeingFetchedMap (nilwarm counting) = Some []
        \<and> isBeingFetchedWG (nilwarm counting) = Some []
        \<and> \<not> being_fetched (nilwarm counting) ''k'' \<and> fetch (nilwarm counting) = Some counting
        \<and> counting (calls (nilwarm counting)) ''k'' = (Val 0, None)"
    by (simp add: nilwarm_def being_fetched_def counting_def)
  have u: "Update (nilwarm flaky) ''k''
       = (Returns (Some (ErrOther ''boom'')),
          (nilwarm flaky)\<lparr>isBeingFetchedMap := Some [(''k'', True)],
                          isBeingFetchedWG := Some [(''k'', 0)], calls := [''k'']\<rparr>)"
    by (simp add: nilwarm_def flaky_def Update_def step_defs)
  have c: "calls (nilwarm counting) = []" by (simp add: nilwarm_def)
  from Update_nil_items [where m = "zero_Cache [] :: nat state" and key = "''k''"] z
  have 1: "Update (zero_Cache [] :: nat state) ''k'' = (Panics, zero_Cache [])" by blast
  from Update_nil_items [where m = "nilwarm counting" and key = "''k''" and fl = "[]"
      and wgs = "[]" and f = counting and v = "Val 0"] h
  have 2: "fst (Update (nilwarm counting) ''k'') = Panics
         \<and> calls (snd (Update (nilwarm counting) ''k'')) = calls (nilwarm counting) @ [''k'']"
    by blast
  from Update_nil_items [where m = "nilwarm flaky" and key = "''k''"
      and r = "Some (ErrOther ''boom'')"
      and m' = "(nilwarm flaky)\<lparr>isBeingFetchedMap := Some [(''k'', True)],
                          isBeingFetchedWG := Some [(''k'', 0)], calls := [''k'']\<rparr>"] u
  have 3: "\<exists>f v. fetch (nilwarm flaky) = Some f
           \<and> f (calls (nilwarm flaky)) ''k'' = (v, Some (ErrOther ''boom''))"
    by blast
  from z n h u c 1 2 3 show ?thesis by simp
qed

end
